theory Spec2Isabelle
  imports Complex_Main "HOL-Library.Word"
begin

chapter \<open>Forge: session and continuation supervisor\<close>

text \<open>
  A shallow embedding of the parts of the Forge main process that its specification makes
  claims about: the continuation engine, the task router, the memory search of the store,
  the environment handed to a PTY child, the session clean-up of the supervisor, and the
  best-of-N synthesis with its hidden single-shot runs.
\<close>

section \<open>JavaScript strings and regular expressions\<close>

text \<open>
  A JavaScript string is a sequence of UTF-16 code units; \<open>length\<close>, \<open>slice\<close> and the
  regular expressions of the source (none carries the \<open>u\<close> flag) all work on code units.
  \<open>asc\<close> embeds an ASCII literal of the source.
\<close>

unbundle bit_operations_syntax

type_synonym jschar = "16 word"
type_synonym jsstring = "jschar list"

definition code :: "char \<Rightarrow> jschar" where
  "code c = of_nat (of_char c)"

definition asc :: "string \<Rightarrow> jsstring" where
  "asc s = map code s"

text \<open>\<open>\w\<close> is \<open>[A-Za-z0-9_]\<close>; \<open>\s\<close> is the white space and line terminators of ECMAScript.\<close>

definition isWordChar :: "jschar \<Rightarrow> bool" where
  "isWordChar c \<longleftrightarrow>
     (0x41 \<le> c \<and> c \<le> 0x5A) \<or> (0x61 \<le> c \<and> c \<le> 0x7A) \<or> (0x30 \<le> c \<and> c \<le> 0x39) \<or> c = 0x5F"

definition isSpace :: "jschar \<Rightarrow> bool" where
  "isSpace c \<longleftrightarrow>
     (0x09 \<le> c \<and> c \<le> 0x0D) \<or> c = 0x20 \<or> c = 0xA0 \<or> c = 0x1680 \<or>
     (0x2000 \<le> c \<and> c \<le> 0x200A) \<or> c = 0x2028 \<or> c = 0x2029 \<or> c = 0x202F \<or>
     c = 0x205F \<or> c = 0x3000 \<or> c = 0xFEFF"

text \<open>
  Under the \<open>i\<close> flag (without \<open>u\<close>) two code units match when their canonical forms are
  equal; a code unit outside ASCII never canonicalises to an ASCII one. Every pattern
  character of the source is ASCII, so folding the ASCII letters decides every comparison
  the source makes.
\<close>

definition canonicalize :: "jschar \<Rightarrow> jschar" where
  "canonicalize c = (if 0x61 \<le> c \<and> c \<le> 0x7A then c - 0x20 else c)"

datatype re =
    Cls "jschar \<Rightarrow> bool"
  | Bol
  | Eol
  | WordB
  | Eps
  | Seq re re
  | Alt re re
  | Star re

text \<open>
  A position in the subject string: the code unit before it (none at the start) and the
  input after it. \<open>ends r p\<close> lists the positions at which a match of \<open>r\<close> that starts at
  \<open>p\<close> can end. \<open>RegExp.prototype.test\<close> asks whether some match exists, so the order in
  which a backtracking matcher would find them plays no role.
\<close>

type_synonym pos = "jschar option \<times> jsstring"

definition isWordAt :: "jschar option \<Rightarrow> bool" where
  "isWordAt c = (case c of None \<Rightarrow> False | Some x \<Rightarrow> isWordChar x)"

definition nextChar :: "jsstring \<Rightarrow> jschar option" where
  "nextChar s = (case s of [] \<Rightarrow> None | x # _ \<Rightarrow> Some x)"

primrec starEnds :: "(pos \<Rightarrow> pos list) \<Rightarrow> nat \<Rightarrow> pos list \<Rightarrow> pos list \<Rightarrow> pos list" where
  "starEnds f 0 frontier seen = seen"
| "starEnds f (Suc n) frontier seen =
     (let new = remdups (filter (\<lambda>q. \<not> List.member seen q) (concat (map f frontier)))
      in starEnds f n new (seen @ new))"

primrec ends :: "re \<Rightarrow> pos \<Rightarrow> pos list" where
  "ends (Cls P) p =
     (case snd p of [] \<Rightarrow> [] | x # xs \<Rightarrow> if P x then [(Some x, xs)] else [])"
| "ends Bol p = (if fst p = None then [p] else [])"
| "ends Eol p = (if snd p = [] then [p] else [])"
| "ends WordB p = (if isWordAt (fst p) \<noteq> isWordAt (nextChar (snd p)) then [p] else [])"
| "ends Eps p = [p]"
| "ends (Seq a b) p = concat (map (ends b) (ends a p))"
| "ends (Alt a b) p = ends a p @ ends b p"
| "ends (Star a) p = starEnds (ends a) (length (snd p)) [p] [p]"

fun positions :: "jschar option \<Rightarrow> jsstring \<Rightarrow> pos list" where
  "positions prev [] = [(prev, [])]"
| "positions prev (x # xs) = (prev, x # xs) # positions (Some x) xs"

definition regexTest :: "re \<Rightarrow> jsstring \<Rightarrow> bool" where
  "regexTest r s = list_ex (\<lambda>p. ends r p \<noteq> []) (positions None s)"

definition chr :: "char \<Rightarrow> re" where
  "chr c = Cls (\<lambda>x. x = code c)"

definition chrI :: "char \<Rightarrow> re" where
  "chrI c = Cls (\<lambda>x. canonicalize x = canonicalize (code c))"

definition lit :: "string \<Rightarrow> re" where
  "lit s = foldr (\<lambda>c r. Seq (chr c) r) s Eps"

definition litI :: "string \<Rightarrow> re" where
  "litI s = foldr (\<lambda>c r. Seq (chrI c) r) s Eps"

section \<open>JavaScript numbers in arithmetic\<close>

text \<open>
  A finite double is a rational number. \<open>toDouble x\<close> is the double nearest to \<open>x\<close>, ties
  going to the even significand: it is the value of a decimal literal of the source, and
  IEEE 754 defines the result of an addition or a division as the exact result rounded
  this way. A double has 53 significant bits, and below \<open>2^-1022\<close> the spacing stays
  \<open>2^-1074\<close>. The numbers of the router lie between 0 and 12, far from the overflow to
  \<open>Infinity\<close>, which is left out.
\<close>

fun bitLength :: "nat \<Rightarrow> nat" where
  "bitLength n = (if n = 0 then 0 else Suc (bitLength (n div 2)))"

declare bitLength.simps [simp del]

definition pow2 :: "int \<Rightarrow> rat" where
  "pow2 k = (if 0 \<le> k then 2 ^ nat k else 1 / 2 ^ nat (- k))"

text \<open>For \<open>x > 0\<close>, the \<open>e\<close> with \<open>2^e \<le> x < 2^(e+1)\<close>.\<close>

definition binade :: "rat \<Rightarrow> int" where
  "binade x =
     (if 1 \<le> x then int (bitLength (nat \<lfloor>x\<rfloor>)) - 1
      else - int (bitLength (nat (\<lceil>1 / x\<rceil> - 1))))"

definition roundHalfEven :: "rat \<Rightarrow> int" where
  "roundHalfEven q =
     (if q - of_int \<lfloor>q\<rfloor> < 1 / 2 then \<lfloor>q\<rfloor>
      else if 1 / 2 < q - of_int \<lfloor>q\<rfloor> then \<lfloor>q\<rfloor> + 1
      else if even \<lfloor>q\<rfloor> then \<lfloor>q\<rfloor> else \<lfloor>q\<rfloor> + 1)"

definition toDouble :: "rat \<Rightarrow> rat" where
  "toDouble x =
     (if x = 0 then 0
      else sgn x * of_int (roundHalfEven (\<bar>x\<bar> / pow2 (max (binade \<bar>x\<bar>) (- 1022) - 52)))
             * pow2 (max (binade \<bar>x\<bar>) (- 1022) - 52))"

definition dadd :: "rat \<Rightarrow> rat \<Rightarrow> rat" where
  "dadd x y = toDouble (x + y)"

definition ddiv :: "rat \<Rightarrow> rat \<Rightarrow> rat" where
  "ddiv x y = toDouble (x / y)"

section \<open>The task router\<close>

datatype CLIType = Claude | Gemini | Codex | Copilot | Qwen | Llm

datatype TaskCategory = Deep | Code | Visual | Research | Quick | Git | Local

record RouteResult =
  cli :: CLIType
  category :: TaskCategory
  rationale :: string
  confidence :: rat

record WeightedRule =
  rule_keywords :: "(re \<times> rat) list"
  rule_cli :: CLIType
  rule_category :: TaskCategory
  rule_rationale :: string

definition cliName :: "CLIType \<Rightarrow> string" where
  "cliName c = (case c of Claude \<Rightarrow> ''claude'' | Gemini \<Rightarrow> ''gemini'' | Codex \<Rightarrow> ''codex''
     | Copilot \<Rightarrow> ''copilot'' | Qwen \<Rightarrow> ''qwen'' | Llm \<Rightarrow> ''llm'')"

definition defaultCategoryForCli :: "CLIType \<Rightarrow> TaskCategory" where
  "defaultCategoryForCli c = (case c of Gemini \<Rightarrow> Visual | Codex \<Rightarrow> Code | Copilot \<Rightarrow> Git
     | Llm \<Rightarrow> Local | Qwen \<Rightarrow> Quick | Claude \<Rightarrow> Deep)"

text \<open>\<open>wb s\<close> is \<open>/\bs/i\<close> and \<open>wbw s\<close> is \<open>/\bs\b/i\<close>, the two shapes of the keyword table.\<close>

definition wb :: "string \<Rightarrow> re" where
  "wb s = Seq WordB (litI s)"

definition wbw :: "string \<Rightarrow> re" where
  "wbw s = Seq WordB (Seq (litI s) WordB)"

text \<open>The eight entries of \<open>RULES\<close>, in the order of the source.\<close>

definition ruleDeep :: WeightedRule where
  "ruleDeep =
     \<lparr>rule_keywords = [(wb ''architect'', 1), (wbw ''plan'', 8/10), (wbw ''review'', 6/10),
         (wb ''analyze'', 8/10), (wb ''complex'', 7/10), (wb ''refactor'', 9/10),
         (wbw ''why'', 5/10), (wbw ''how does'', 5/10), (wb ''design system'', 7/10),
         (wb ''system design'', 9/10)],
       rule_cli = Claude, rule_category = Deep,
       rule_rationale = ''Claude for deep planning and architecture analysis''\<rparr>"

definition ruleVisual :: WeightedRule where
  "ruleVisual =
     \<lparr>rule_keywords = [(wb ''frontend'', 1), (wbw ''ui'', 9/10), (wbw ''ux'', 9/10),
         (wbw ''css'', 1), (wbw ''html'', 7/10), (wb ''component'', 8/10),
         (wbw ''react'', 7/10), (wbw ''vue'', 7/10), (wbw ''angular'', 7/10),
         (wb ''tailwind'', 9/10), (wb ''visual'', 8/10), (wbw ''design'', 4/10),
         (wb ''layout'', 9/10), (wb ''style'', 8/10)],
       rule_cli = Gemini, rule_category = Visual,
       rule_rationale = ''Gemini for visual/frontend specialization''\<rparr>"

definition ruleCode :: WeightedRule where
  "ruleCode =
     \<lparr>rule_keywords = [(wb ''complete'', 7/10), (wb ''autocomplete'', 9/10),
         (wb ''boilerplate'', 9/10), (wb ''scaffold'', 8/10), (wbw ''generate'', 6/10),
         (wb ''snippet'', 8/10), (wb ''quick fix'', 7/10)],
       rule_cli = Codex, rule_category = Code,
       rule_rationale = ''Codex for rapid code generation and completion''\<rparr>"

definition ruleGit :: WeightedRule where
  "ruleGit =
     \<lparr>rule_keywords = [(wb ''commit'', 1), (wbw ''pr'', 9/10), (wb ''pull request'', 1),
         (wb ''github'', 9/10), (wb ''branch'', 8/10), (wb ''merge'', 8/10),
         (wbw ''git'', 1), (wb ''review pr'', 1)],
       rule_cli = Copilot, rule_category = Git,
       rule_rationale = ''Copilot for GitHub-integrated workflows''\<rparr>"

definition ruleLocal :: WeightedRule where
  "ruleLocal =
     \<lparr>rule_keywords = [(wb ''private'', 9/10), (wbw ''local'', 8/10), (wb ''offline'', 1),
         (wb ''confidential'', 1), (wb ''sensitive'', 9/10), (wb ''no cloud'', 1)],
       rule_cli = Llm, rule_category = Local,
       rule_rationale = ''Local LLM for private/offline work''\<rparr>"

definition ruleResearch :: WeightedRule where
  "ruleResearch =
     \<lparr>rule_keywords = [(wbw ''docs'', 8/10), (wb ''documentation'', 9/10), (wbw ''search'', 5/10),
         (wb ''look up'', 7/10), (wb ''explain'', 8/10), (wb ''what is'', 7/10)],
       rule_cli = Claude, rule_category = Research,
       rule_rationale = ''Claude for research and documentation lookup''\<rparr>"

definition ruleDebug :: WeightedRule where
  "ruleDebug =
     \<lparr>rule_keywords = [(wb ''fix bug'', 1), (wb ''debug'', 1), (wbw ''error'', 7/10),
         (wb ''crash'', 9/10), (wb ''traceback'', 9/10), (wb ''exception'', 8/10)],
       rule_cli = Claude, rule_category = Deep,
       rule_rationale = ''Claude for debugging with extended reasoning''\<rparr>"

definition ruleTest :: WeightedRule where
  "ruleTest =
     \<lparr>rule_keywords = [(wbw ''test'', 7/10), (wb ''unit test'', 1), (wb ''integration test'', 1),
         (wbw ''spec'', 6/10), (wbw ''jest'', 9/10), (wbw ''vitest'', 9/10),
         (wbw ''pytest'', 9/10)],
       rule_cli = Codex, rule_category = Code,
       rule_rationale = ''Codex for test generation''\<rparr>"

definition RULES :: "WeightedRule list" where
  "RULES = [ruleDeep, ruleVisual, ruleCode, ruleGit, ruleLocal, ruleResearch, ruleDebug, ruleTest]"

text \<open>
  The weights of the table are written as the decimal literals of the source; the program
  holds each as a double. The inner loop of \<open>routeTask\<close> adds them as doubles, in the order
  of the table: the sum of all weights of a rule, and the sum of the weights whose pattern
  matches the description.
\<close>

definition scoreRule :: "jsstring \<Rightarrow> (re \<times> rat) list \<Rightarrow> rat \<times> rat" where
  "scoreRule description kws =
     foldl (\<lambda>(totalWeight, matchedWeight) (pattern, weight).
              (dadd totalWeight (toDouble weight),
               if regexTest pattern description then dadd matchedWeight (toDouble weight)
               else matchedWeight))
           (0, 0) kws"

definition totalWeight :: "jsstring \<Rightarrow> WeightedRule \<Rightarrow> rat" where
  "totalWeight description rule = fst (scoreRule description (rule_keywords rule))"

definition matchedWeight :: "jsstring \<Rightarrow> WeightedRule \<Rightarrow> rat" where
  "matchedWeight description rule = snd (scoreRule description (rule_keywords rule))"

definition resultOf :: "jsstring \<Rightarrow> WeightedRule \<Rightarrow> RouteResult" where
  "resultOf description rule =
     \<lparr>cli = rule_cli rule, category = rule_category rule, rationale = rule_rationale rule,
      confidence = min (ddiv (matchedWeight description rule) (totalWeight description rule)) 1\<rparr>"

text \<open>One turn of the outer loop, on the pair \<open>(bestMatch, bestScore)\<close>.\<close>

definition routeStep ::
  "jsstring \<Rightarrow> RouteResult option \<times> rat \<Rightarrow> WeightedRule \<Rightarrow> RouteResult option \<times> rat" where
  "routeStep description best rule =
     (if matchedWeight description rule > 0 then
        (if matchedWeight description rule > snd best
         then (Some (resultOf description rule), matchedWeight description rule)
         else best)
      else best)"

definition defaultRoute :: RouteResult where
  "defaultRoute = \<lparr>cli = Claude, category = Deep,
     rationale = ''Claude as default general-purpose agent'', confidence = 1/2\<rparr>"

definition routeWith :: "WeightedRule list \<Rightarrow> jsstring \<Rightarrow> CLIType option \<Rightarrow> RouteResult" where
  "routeWith rules description preferredCli =
     (case preferredCli of
        Some c \<Rightarrow> \<lparr>cli = c, category = defaultCategoryForCli c,
                   rationale = ''Manual override: using '' @ cliName c, confidence = 1\<rparr>
      | None \<Rightarrow>
          (case fst (foldl (routeStep description) (None, 0) rules) of
             Some r \<Rightarrow> r
           | None \<Rightarrow> defaultRoute))"

definition routeTask :: "jsstring \<Rightarrow> CLIType option \<Rightarrow> RouteResult" where
  "routeTask = routeWith RULES"

text \<open>
  The winner in words: if some rule has a positive weight, the first rule of the list
  whose weight is the greatest one. The weight of a rule is, for the program, the sum its
  loop computed; for a reader of the table, the total of the weights of the matching
  keywords as the decimal numbers written there.
\<close>

definition firstGreatest :: "(WeightedRule \<Rightarrow> rat) \<Rightarrow> WeightedRule list \<Rightarrow> WeightedRule option" where
  "firstGreatest weightOf rules =
     (if list_ex (\<lambda>r. 0 < weightOf r) rules
      then find (\<lambda>r. weightOf r = Max (set (map weightOf rules))) rules
      else None)"

definition matchedWeights :: "jsstring \<Rightarrow> WeightedRule \<Rightarrow> rat list" where
  "matchedWeights description rule =
     map snd (filter (\<lambda>kw. regexTest (fst kw) description) (rule_keywords rule))"

definition decimalWeight :: "jsstring \<Rightarrow> WeightedRule \<Rightarrow> rat" where
  "decimalWeight description rule = sum_list (matchedWeights description rule)"

text \<open>The sum the loop computes for a list of weights, from the left.\<close>

definition doubleSum :: "rat list \<Rightarrow> rat" where
  "doubleSum ws = foldl (\<lambda>s w. dadd s (toDouble w)) 0 ws"

section \<open>The continuation engine\<close>

text \<open>
  The engine of \<open>electron/agents/continuation.ts\<close> in the version the main process is
  written against (it exports \<open>ONE_SHOT_DONE_MARKER\<close> and takes hooks and options).
\<close>

definition seqs :: "re list \<Rightarrow> re" where
  "seqs rs = foldr Seq rs Eps"

definition lineStart :: re where
  "lineStart = Alt Bol (Cls (\<lambda>c. c = 0x0A))"

definition notNewline :: re where
  "notNewline = Cls (\<lambda>c. c \<noteq> 0x0A)"

definition spacesToEnd :: re where
  "spacesToEnd = Seq (Star (Cls isSpace)) Eol"

definition ONE_SHOT_DONE_MARKER :: string where
  "ONE_SHOT_DONE_MARKER = ''__FORGE_ONE_SHOT_DONE__''"

text \<open>
  \<open>IDLE_PROMPT_PATTERNS\<close>, in the order of the source; \<open>0x276F\<close> is the prompt character
  of Claude Code, \<open>0x24\<close> the dollar sign.
\<close>

definition IDLE_PROMPT_PATTERNS :: "re list" where
  "IDLE_PROMPT_PATTERNS = [
     seqs [lineStart, Star notNewline, Cls (\<lambda>c. c = 0x276F), spacesToEnd],
     seqs [lineStart, Star notNewline, Cls (\<lambda>c. c = 0x24), spacesToEnd],
     seqs [lineStart, Cls (\<lambda>c. (0x41 \<le> c \<and> c \<le> 0x5A) \<or> (0x61 \<le> c \<and> c \<le> 0x7A)), chr CHR '':'',
           Star notNewline, chr CHR ''>'', spacesToEnd],
     seqs [lineStart, Alt (litI ''claude'') (Alt (litI ''gemini'') (litI ''codex'')),
           chrI CHR ''>'', spacesToEnd],
     seqs [lineStart, lit ONE_SHOT_DONE_MARKER, spacesToEnd],
     seqs [lineStart, chr CHR ''>'', spacesToEnd]]"

definition DONE_PATTERNS :: "re list" where
  "DONE_PATTERNS = [
     litI ''<promise>DONE</promise>'',
     wbw ''all tasks completed'',
     wbw ''task complete'',
     wbw ''finished successfully'',
     wbw ''completed successfully'']"

fun splitOn :: "'a \<Rightarrow> 'a list \<Rightarrow> 'a list list" where
  "splitOn c [] = [[]]"
| "splitOn c (x # xs) =
     (if x = c then [] # splitOn c xs
      else (case splitOn c xs of [] \<Rightarrow> [[x]] | l # ls \<Rightarrow> (x # l) # ls))"

fun joinWith :: "'a list \<Rightarrow> 'a list list \<Rightarrow> 'a list" where
  "joinWith sep [] = []"
| "joinWith sep [l] = l"
| "joinWith sep (l # ls) = l @ sep @ joinWith sep ls"

text \<open>\<open>xs.slice(-n)\<close>: the last \<open>n\<close> elements, all of them when there are fewer.\<close>

definition sliceLast :: "nat \<Rightarrow> 'a list \<Rightarrow> 'a list" where
  "sliceLast n xs = drop (length xs - n) xs"

definition lastLines :: "jsstring \<Rightarrow> jsstring" where
  "lastLines outputBuffer = joinWith [0x0A] (sliceLast 5 (splitOn 0x0A outputBuffer))"

definition doneSignalled :: "jsstring \<Rightarrow> bool" where
  "doneSignalled outputBuffer = list_ex (\<lambda>p. regexTest p outputBuffer) DONE_PATTERNS"

definition isAtPrompt :: "jsstring \<Rightarrow> bool" where
  "isAtPrompt outputBuffer =
     list_ex (\<lambda>p. regexTest p (lastLines outputBuffer)) IDLE_PROMPT_PATTERNS"

definition QUIET_DELAY_MS :: rat where
  "QUIET_DELAY_MS = 12000"

definition MAX_BUFFER_SIZE :: nat where
  "MAX_BUFFER_SIZE = 50000"

definition BUFFER_TRIM_TO :: nat where
  "BUFFER_TRIM_TO = 20000"

datatype status = Running | Paused | Done | MaxReached | Cancelled

text \<open>Which of the optional hooks the caller passed.\<close>

record ContinuationHooks =
  onIteration :: bool
  onDone :: bool
  onMaxReached :: bool
  onCancelled :: bool

record ContinuationStartOptions =
  kickOff :: bool
  requirePrompt_opt :: "bool option"
  quietDelayMs_opt :: "rat option"

text \<open>
  A state object. \<open>maxIterations\<close> is a JavaScript number: the engine compares with it and
  never computes with it, and a finite double is a rational. \<open>currentIteration\<close> starts at 0
  and is only ever incremented. \<open>timer\<close> holds the handle that \<open>setTimeout\<close> returned,
  \<open>window\<close> names the \<open>BrowserWindow\<close> the state was started with.
\<close>

record ContinuationState =
  ptyId :: jsstring
  goal :: jsstring
  maxIterations :: rat
  currentIteration :: nat
  status :: status
  requirePrompt :: bool
  quietDelayMs :: rat
  timer :: "nat option"
  outputBuffer :: jsstring
  window :: nat
  hooks :: ContinuationHooks

text \<open>
  What the engine does to the outside, in the order it does it: the hooks it calls, the
  messages it sends to the window, the calls of \<open>onContinue\<close>; and the assignments of a
  final status, which \<open>getContinuationState\<close> lets the caller see.
\<close>

datatype event =
    StatusSet status
  | HookIteration jsstring nat rat
  | HookDone jsstring nat
  | HookMaxReached jsstring nat jsstring
  | HookCancelled jsstring
  | SendIteration jsstring nat rat
  | SendDone jsstring nat
  | SendMaxReached jsstring nat jsstring
  | OnContinue jsstring

text \<open>
  The module's state. The timer callbacks close over a state object, not over a
  \<open>ptyId\<close>, and a state object outlives its entry in \<open>states\<close>; so the objects live in a
  heap, \<open>states\<close> maps a \<open>ptyId\<close> to an address, and a pending timeout remembers the
  address its callback holds and the delay it was armed with. Each entry of the trace is
  tagged with the address of the state object it was made for: one object is one
  continuation run.
\<close>

record engine =
  heap :: "nat \<rightharpoonup> ContinuationState"
  states :: "jsstring \<rightharpoonup> nat"
  timers :: "nat \<rightharpoonup> nat \<times> rat"
  nextAddr :: nat
  nextTimer :: nat
  destroyed :: "nat set"
  trace :: "(nat \<times> event) list"

definition initEngine :: engine where
  "initEngine = \<lparr>heap = Map.empty, states = Map.empty, timers = Map.empty,
     nextAddr = 0, nextTimer = 0, destroyed = {}, trace = []\<rparr>"

definition setState :: "nat \<Rightarrow> (ContinuationState \<Rightarrow> ContinuationState) \<Rightarrow> engine \<Rightarrow> engine" where
  "setState a f e = (case heap e a of None \<Rightarrow> e | Some st \<Rightarrow> e\<lparr>heap := (heap e)(a \<mapsto> f st)\<rparr>)"

definition emit :: "nat \<Rightarrow> event list \<Rightarrow> engine \<Rightarrow> engine" where
  "emit a evs e = e\<lparr>trace := trace e @ map (Pair a) evs\<rparr>"

definition clearTimeout :: "nat \<Rightarrow> engine \<Rightarrow> engine" where
  "clearTimeout t e = e\<lparr>timers := (timers e)(t := None)\<rparr>"

definition statesDelete :: "jsstring \<Rightarrow> engine \<Rightarrow> engine" where
  "statesDelete p e = e\<lparr>states := (states e)(p := None)\<rparr>"

definition stopContinuation :: "jsstring \<Rightarrow> engine \<Rightarrow> engine" where
  "stopContinuation p e =
     (case states e p of
        None \<Rightarrow> e
      | Some a \<Rightarrow>
          (case heap e a of
             None \<Rightarrow> statesDelete p e
           | Some st \<Rightarrow>
               statesDelete p
                 (emit a (StatusSet Cancelled # (if onCancelled (hooks st) then [HookCancelled p] else []))
                   (setState a (\<lambda>s. s\<lparr>status := Cancelled\<rparr>)
                     (case timer st of Some t \<Rightarrow> clearTimeout t e | None \<Rightarrow> e)))))"

definition scheduleCheck :: "nat \<Rightarrow> engine \<Rightarrow> engine" where
  "scheduleCheck a e =
     (case heap e a of
        None \<Rightarrow> e
      | Some st \<Rightarrow>
          if status st \<noteq> Running then e
          else setState a (\<lambda>s. s\<lparr>timer := Some (nextTimer e)\<rparr>)
                 (e\<lparr>timers := (timers e)(nextTimer e \<mapsto> (a, quietDelayMs st)),
                    nextTimer := Suc (nextTimer e)\<rparr>))"

text \<open>
  The end of a run by \<open>done\<close> or \<open>max_reached\<close>: the status is set, the entry leaves the
  map, then the hook is called and the message sent (\<open>evs\<close>).
\<close>

definition finish :: "nat \<Rightarrow> ContinuationState \<Rightarrow> status \<Rightarrow> event list \<Rightarrow> engine \<Rightarrow> engine" where
  "finish a st s evs e =
     emit a evs (statesDelete (ptyId st) (setState a (\<lambda>x. x\<lparr>status := s\<rparr>) e))"

text \<open>
  The body of an iteration up to the call of \<open>onContinue\<close>: count, empty the buffer, call
  the hook, send the message, call \<open>onContinue\<close>.
\<close>

definition iterate :: "nat \<Rightarrow> ContinuationState \<Rightarrow> engine \<Rightarrow> engine" where
  "iterate a st e =
     emit a ((if onIteration (hooks st)
              then [HookIteration (ptyId st) (Suc (currentIteration st)) (maxIterations st)]
              else [])
             @ [SendIteration (ptyId st) (Suc (currentIteration st)) (maxIterations st),
                OnContinue (ptyId st)])
       (setState a (\<lambda>s. s\<lparr>currentIteration := Suc (currentIteration s), outputBuffer := []\<rparr>) e)"

definition runIteration :: "nat \<Rightarrow> engine \<Rightarrow> engine" where
  "runIteration a e =
     (case heap e a of
        None \<Rightarrow> e
      | Some st \<Rightarrow>
          if status st \<noteq> Running then e
          else if window st \<in> destroyed e then stopContinuation (ptyId st) e
          else if maxIterations st \<le> of_nat (currentIteration st) then
            finish a st MaxReached
              (StatusSet MaxReached
               # (if onMaxReached (hooks st)
                  then [HookMaxReached (ptyId st) (currentIteration st) (goal st)] else [])
               @ [SendMaxReached (ptyId st) (currentIteration st) (goal st)]) e
          else scheduleCheck a (iterate a st e))"

definition checkAndContinue :: "nat \<Rightarrow> engine \<Rightarrow> engine" where
  "checkAndContinue a e =
     (case heap e a of
        None \<Rightarrow> e
      | Some st \<Rightarrow>
          if status st \<noteq> Running then e
          else if window st \<in> destroyed e then stopContinuation (ptyId st) e
          else if doneSignalled (outputBuffer st) then
            finish a st Done
              (StatusSet Done
               # (if onDone (hooks st) then [HookDone (ptyId st) (currentIteration st)] else [])
               @ [SendDone (ptyId st) (currentIteration st)]) e
          else if requirePrompt st \<and> \<not> isAtPrompt (outputBuffer st) then scheduleCheck a e
          else runIteration a e)"

text \<open>
  The callback that \<open>scheduleCheck\<close> hands to \<open>setTimeout\<close>, when the event loop runs it:
  a timeout that was cleared, or has fired already, never runs. \<open>fired\<close> is the engine as
  the callback finds it after \<open>state.timer = undefined\<close>.
\<close>

definition fired :: "nat \<Rightarrow> nat \<Rightarrow> engine \<Rightarrow> engine" where
  "fired t a e = setState a (\<lambda>s. s\<lparr>timer := None\<rparr>) (clearTimeout t e)"

definition fireTimer :: "nat \<Rightarrow> engine \<Rightarrow> engine" where
  "fireTimer t e =
     (case timers e t of
        None \<Rightarrow> e
      | Some (a, delay) \<Rightarrow> checkAndContinue a (fired t a e))"

text \<open>The object \<open>startContinuation\<close> makes, and its entry into the heap and the map.\<close>

definition newState ::
  "jsstring \<Rightarrow> jsstring \<Rightarrow> rat \<Rightarrow> nat \<Rightarrow> ContinuationHooks \<Rightarrow> ContinuationStartOptions \<Rightarrow> ContinuationState" where
  "newState p g maxIter win hks options =
     \<lparr>ptyId = p, goal = g, maxIterations = maxIter, currentIteration = 0, status = Running,
      requirePrompt = (case requirePrompt_opt options of None \<Rightarrow> True | Some b \<Rightarrow> b),
      quietDelayMs = (case quietDelayMs_opt options of
                        None \<Rightarrow> QUIET_DELAY_MS
                      | Some d \<Rightarrow> if 250 \<le> d then d else QUIET_DELAY_MS),
      timer = None, outputBuffer = [], window = win, hooks = hks\<rparr>"

definition allocated :: "jsstring \<Rightarrow> ContinuationState \<Rightarrow> engine \<Rightarrow> engine" where
  "allocated p st e =
     e\<lparr>heap := (heap e)(nextAddr e \<mapsto> st), states := (states e)(p \<mapsto> nextAddr e),
       nextAddr := Suc (nextAddr e)\<rparr>"

definition startContinuation ::
  "jsstring \<Rightarrow> jsstring \<Rightarrow> rat \<Rightarrow> nat \<Rightarrow> ContinuationHooks \<Rightarrow> ContinuationStartOptions \<Rightarrow> engine \<Rightarrow> engine" where
  "startContinuation p g maxIter win hks options e =
     (let e2 = allocated p (newState p g maxIter win hks options) (stopContinuation p e)
      in if kickOff options then runIteration (nextAddr (stopContinuation p e)) e2
         else scheduleCheck (nextAddr (stopContinuation p e)) e2)"

definition trimBuffer :: "jsstring \<Rightarrow> jsstring" where
  "trimBuffer buf = (if MAX_BUFFER_SIZE < length buf then sliceLast BUFFER_TRIM_TO buf else buf)"

text \<open>The two halves of \<open>onPtyData\<close> before the timer is armed again.\<close>

definition buffered :: "nat \<Rightarrow> jsstring \<Rightarrow> engine \<Rightarrow> engine" where
  "buffered a data e = setState a (\<lambda>s. s\<lparr>outputBuffer := trimBuffer (outputBuffer s @ data)\<rparr>) e"

definition disarmed :: "nat \<Rightarrow> ContinuationState \<Rightarrow> engine \<Rightarrow> engine" where
  "disarmed a st e =
     setState a (\<lambda>s. s\<lparr>timer := None\<rparr>) ((case timer st of Some t \<Rightarrow> clearTimeout t | None \<Rightarrow> id) e)"

definition onPtyData :: "jsstring \<Rightarrow> jsstring \<Rightarrow> engine \<Rightarrow> engine" where
  "onPtyData p data e =
     (case states e p of
        None \<Rightarrow> e
      | Some a \<Rightarrow>
          (case heap e a of
             None \<Rightarrow> e
           | Some st \<Rightarrow>
               if status st \<noteq> Running then e
               else scheduleCheck a (disarmed a st (buffered a data e))))"

text \<open>
  What can happen to the engine: the three exported operations, a pending timeout
  firing, a window being destroyed.
\<close>

datatype action =
    Start jsstring jsstring rat nat ContinuationHooks ContinuationStartOptions
  | Stop jsstring
  | PtyData jsstring jsstring
  | Fire nat
  | DestroyWindow nat

fun step :: "engine \<Rightarrow> action \<Rightarrow> engine" where
  "step e (Start p g m w h opts) = startContinuation p g m w h opts e"
| "step e (Stop p) = stopContinuation p e"
| "step e (PtyData p d) = onPtyData p d e"
| "step e (Fire t) = fireTimer t e"
| "step e (DestroyWindow w) = e\<lparr>destroyed := insert w (destroyed e)\<rparr>"

definition run :: "action list \<Rightarrow> engine" where
  "run acts = foldl step initEngine acts"

text \<open>
  The copy of the engine at \<open>electron/agents/continuation.ts\<close> in the repository: its
  \<open>onPtyData\<close> stops after clearing the timer. It reads and writes only fields that both
  versions of the state have.
\<close>

definition buffered_legacy :: "nat \<Rightarrow> jsstring \<Rightarrow> engine \<Rightarrow> engine" where
  "buffered_legacy a data e =
     setState a (\<lambda>s. s\<lparr>outputBuffer :=
        (if 50000 < length (outputBuffer s @ data)
         then sliceLast 20000 (outputBuffer s @ data)
         else outputBuffer s @ data)\<rparr>) e"

definition onPtyData_legacy :: "jsstring \<Rightarrow> jsstring \<Rightarrow> engine \<Rightarrow> engine" where
  "onPtyData_legacy p data e =
     (case states e p of
        None \<Rightarrow> e
      | Some a \<Rightarrow>
          (case heap e a of
             None \<Rightarrow> e
           | Some st \<Rightarrow>
               if status st \<noteq> Running then e
               else disarmed a st (buffered_legacy a data e)))"

text \<open>The projections of a trace that the claims speak about.\<close>

definition iterationsOf :: "nat \<Rightarrow> (nat \<times> event) list \<Rightarrow> nat list" where
  "iterationsOf a tr =
     concat (map (\<lambda>x. case x of (b, SendIteration p i m) \<Rightarrow> if b = a then [i] else [] | _ \<Rightarrow> []) tr)"

definition isSend :: "event \<Rightarrow> bool" where
  "isSend ev = (case ev of SendIteration p i m \<Rightarrow> True | SendDone p i \<Rightarrow> True
     | SendMaxReached p i g \<Rightarrow> True | _ \<Rightarrow> False)"

definition sends :: "(nat \<times> event) list \<Rightarrow> (nat \<times> event) list" where
  "sends tr = filter (\<lambda>x. isSend (snd x)) tr"

definition pendingFor :: "engine \<Rightarrow> nat \<Rightarrow> nat set" where
  "pendingFor e a = {t. \<exists>d. timers e t = Some (a, d)}"

text \<open>
  An event that tells of a final status: the assignment itself, and the two messages that
  follow it at once.
\<close>

definition isTerminal :: "event \<Rightarrow> bool" where
  "isTerminal ev = (case ev of StatusSet s \<Rightarrow> True | SendDone p i \<Rightarrow> True
     | SendMaxReached p i g \<Rightarrow> True | _ \<Rightarrow> False)"

text \<open>Every \<open>continuation:iteration\<close> message is followed at once by the call of \<open>onContinue\<close>.\<close>

fun continueFollows :: "(nat \<times> event) list \<Rightarrow> bool" where
  "continueFollows [] = True"
| "continueFollows (x # rest) =
     ((case snd x of
         SendIteration p i m \<Rightarrow> (case rest of [] \<Rightarrow> False | y # _ \<Rightarrow> y = (fst x, OnContinue p))
       | _ \<Rightarrow> True)
      \<and> continueFollows rest)"

text \<open>After an event that tells of a final status of a run, no iteration of that run.\<close>

fun quietAfterEnd :: "(nat \<times> event) list \<Rightarrow> bool" where
  "quietAfterEnd [] = True"
| "quietAfterEnd (x # rest) =
     ((if isTerminal (snd x) then iterationsOf (fst x) rest = [] else True)
      \<and> quietAfterEnd rest)"

subsection \<open>Invariants of the engine\<close>

text \<open>
  The map holds exactly the running objects, under their own \<open>ptyId\<close>; a pending timeout
  belongs to a running object and is the one in its \<open>timer\<close> field, armed with its delay.
\<close>

definition wf :: "engine \<Rightarrow> bool" where
  "wf e \<longleftrightarrow>
     (\<forall>a st. heap e a = Some st \<longrightarrow> a < nextAddr e) \<and>
     (\<forall>p a. states e p = Some a \<longrightarrow>
        (\<exists>st. heap e a = Some st \<and> ptyId st = p \<and> status st = Running)) \<and>
     (\<forall>a st. heap e a = Some st \<and> status st = Running \<longrightarrow> states e (ptyId st) = Some a) \<and>
     (\<forall>t a d. timers e t = Some (a, d) \<longrightarrow>
        t < nextTimer e \<and>
        (\<exists>st. heap e a = Some st \<and> status st = Running \<and> timer st = Some t \<and>
              d = quietDelayMs st))"

text \<open>
  The trace of a run lists the iterations 1 to \<open>currentIteration\<close>; each was sent with the
  run's own \<open>ptyId\<close> and cap, while the count before it was below the cap; a run with an
  event of a final status is not running.
\<close>

definition tinv :: "engine \<Rightarrow> bool" where
  "tinv e \<longleftrightarrow>
     (\<forall>b ev. (b, ev) \<in> set (trace e) \<longrightarrow> b < nextAddr e) \<and>
     (\<forall>a st. heap e a = Some st \<longrightarrow>
        iterationsOf a (trace e) = [1..<Suc (currentIteration st)]) \<and>
     (\<forall>a p i m. (a, SendIteration p i m) \<in> set (trace e) \<longrightarrow>
        (\<exists>st. heap e a = Some st \<and> p = ptyId st \<and> m = maxIterations st \<and> of_nat i < m + 1)) \<and>
     (\<forall>a ev. (a, ev) \<in> set (trace e) \<and> isTerminal ev \<longrightarrow>
        (\<exists>st. heap e a = Some st \<and> status st \<noteq> Running)) \<and>
     continueFollows (trace e) \<and> quietAfterEnd (trace e)"

text \<open>
  A handle in a \<open>timer\<close> field was given out by \<open>setTimeout\<close> to that object: it is below
  the next handle, and the timeout it names, if still pending, calls back into that object.
\<close>

definition own :: "engine \<Rightarrow> bool" where
  "own e \<longleftrightarrow>
     (\<forall>a st t. heap e a = Some st \<and> timer st = Some t \<longrightarrow>
        t < nextTimer e \<and> (\<forall>b d. timers e t = Some (b, d) \<longrightarrow> b = a))"

section \<open>Values and errors at the command boundary\<close>

text \<open>
  An IPC argument is any JavaScript value. A number is a double: finite (a rational),
  \<open>NaN\<close> or an infinity. \<open>Math.min\<close>, \<open>Math.max\<close> and \<open>Math.floor\<close> are exact on finite
  doubles, so the arithmetic of the handlers is the arithmetic of the rationals.
\<close>

datatype jsnumber = Finite rat | NaN | PosInfinity | NegInfinity

datatype jsvalue = JsUndefined | JsNull | JsBoolean bool | JsNumber jsnumber | JsString jsstring

text \<open>What a \<open>throw\<close> carries: an \<open>Error\<close> with its message, or something else.\<close>

datatype thrown = JsError jsstring | NotAnError

text \<open>
  \<open>continuation:start\<close>:
  \<^verbatim>\<open>typeof maxIterations === 'number' && isFinite(maxIterations) && maxIterations > 0
     ? Math.min(maxIterations, 100) : 20\<close>
\<close>

definition continuationMax :: "jsvalue \<Rightarrow> rat" where
  "continuationMax arg =
     (case arg of
        JsNumber (Finite x) \<Rightarrow> if 0 < x then min x 100 else 20
      | _ \<Rightarrow> 20)"

text \<open>
  \<open>ensemble:synthesis\<close>:
  \<^verbatim>\<open>(typeof n === 'number' && isFinite(n)) ? Math.max(1, Math.min(12, Math.floor(n))) : 5\<close>
\<close>

definition synthesisCount :: "jsvalue \<Rightarrow> int" where
  "synthesisCount n =
     (case n of
        JsNumber (Finite x) \<Rightarrow> max 1 (min 12 (floor x))
      | _ \<Rightarrow> 5)"

text \<open>The clamp of the specification, for comparison.\<close>

definition clamp :: "rat \<Rightarrow> rat \<Rightarrow> rat \<Rightarrow> rat" where
  "clamp lo hi x = max lo (min hi x)"

section \<open>Memory search\<close>

record MemoryRow =
  mem_id :: int
  mem_key :: jsstring
  mem_content :: jsstring
  mem_category :: jsstring
  mem_createdAt :: jsstring

text \<open>
  The two prepared statements run inside SQLite. The model takes from the database what
  each \<open>SELECT\<close> yields before its \<open>LIMIT\<close>, in the order of its \<open>ORDER BY\<close>, or the error
  SQLite raises; \<open>LIMIT 10\<close> is applied here.
\<close>

record stmts =
  ftsRows :: "jsstring \<Rightarrow> jsstring \<Rightarrow> thrown + MemoryRow list"
  likeRows :: "jsstring \<Rightarrow> jsstring \<Rightarrow> jsstring \<Rightarrow> thrown + MemoryRow list"

datatype dbcall = FtsCall jsstring jsstring | LikeCall jsstring jsstring jsstring

definition limitRows :: "nat \<Rightarrow> thrown + MemoryRow list \<Rightarrow> thrown + MemoryRow list" where
  "limitRows n r = (case r of Inl err \<Rightarrow> Inl err | Inr rows \<Rightarrow> Inr (take n rows))"

definition searchMemoryFts :: "stmts \<Rightarrow> jsstring \<Rightarrow> jsstring \<Rightarrow> thrown + MemoryRow list" where
  "searchMemoryFts db workspaceId query = limitRows 10 (ftsRows db workspaceId query)"

definition searchMemoryLike ::
  "stmts \<Rightarrow> jsstring \<Rightarrow> jsstring \<Rightarrow> jsstring \<Rightarrow> thrown + MemoryRow list" where
  "searchMemoryLike db workspaceId p1 p2 = limitRows 10 (likeRows db workspaceId p1 p2)"

fun startsWith :: "'a list \<Rightarrow> 'a list \<Rightarrow> bool" where
  "startsWith s [] = True"
| "startsWith [] (y # ys) = False"
| "startsWith (x # xs) (y # ys) = (x = y \<and> startsWith xs ys)"

fun includesStr :: "'a list \<Rightarrow> 'a list \<Rightarrow> bool" where
  "includesStr [] sub = (sub = [])"
| "includesStr (x # xs) sub = (startsWith (x # xs) sub \<or> includesStr xs sub)"

definition messageOf :: "thrown \<Rightarrow> jsstring" where
  "messageOf err = (case err of JsError m \<Rightarrow> m | NotAnError \<Rightarrow> [])"

text \<open>
  How SQLite reports a \<open>MATCH\<close> expression that is not well formed: the FTS5 parser with
  \<open>fts5: syntax error near ...\<close>, its tokenizer with \<open>unterminated string\<close> when a quote is
  not closed.
\<close>

definition ftsSyntaxError :: "thrown \<Rightarrow> bool" where
  "ftsSyntaxError err \<longleftrightarrow>
     includesStr (messageOf err) (asc ''fts5: syntax error'') \<or>
     includesStr (messageOf err) (asc ''unterminated string'')"

text \<open>\<open>s.replace(/c/g, r)\<close> for a single character \<open>c\<close>.\<close>

definition replaceAll :: "jschar \<Rightarrow> jsstring \<Rightarrow> jsstring \<Rightarrow> jsstring" where
  "replaceAll c r s = concat (map (\<lambda>x. if x = c then r else [x]) s)"

text \<open>\<open>0x5C\<close> is the backslash, \<open>0x25\<close> the percent sign, \<open>0x5F\<close> the underscore.\<close>

definition escapeLike :: "jsstring \<Rightarrow> jsstring" where
  "escapeLike s =
     replaceAll 0x5F [0x5C, 0x5F] (replaceAll 0x25 [0x5C, 0x25] (replaceAll 0x5C [0x5C, 0x5C] s))"

text \<open>
  The result comes with the statements that were run, in order. An error of the \<open>LIKE\<close>
  statement is not caught.
\<close>

definition likeFallback :: "stmts \<Rightarrow> jsstring \<Rightarrow> jsstring \<Rightarrow> dbcall list \<times> (thrown + MemoryRow list)" where
  "likeFallback db workspaceId query =
     (let pattern = [0x25] @ escapeLike query @ [0x25]
      in ([FtsCall workspaceId query, LikeCall workspaceId pattern pattern],
          searchMemoryLike db workspaceId pattern pattern))"

definition searchMemory :: "stmts \<Rightarrow> jsstring \<Rightarrow> jsstring \<Rightarrow> dbcall list \<times> (thrown + MemoryRow list)" where
  "searchMemory db workspaceId query =
     (case searchMemoryFts db workspaceId query of
        Inr ftsResults \<Rightarrow>
          if 0 < length ftsResults then ([FtsCall workspaceId query], Inr ftsResults)
          else likeFallback db workspaceId query
      | Inl err \<Rightarrow>
          if \<not> includesStr (messageOf err) (asc ''fts5: syntax error'')
          then ([FtsCall workspaceId query], Inl err)
          else likeFallback db workspaceId query)"

text \<open>
  How SQLite reads a \<open>LIKE\<close> pattern under \<open>ESCAPE '\'\<close>: the character after the escape
  character stands for itself, an unescaped percent sign for any sequence, an unescaped
  underscore for any one character. A pattern that ends in the escape character matches
  nothing.
\<close>

datatype likeToken = AnySequence | AnyOne | Literal jschar | Malformed

fun likeTokens :: "jsstring \<Rightarrow> likeToken list" where
  "likeTokens [] = []"
| "likeTokens [c] =
     (if c = 0x5C then [Malformed] else if c = 0x25 then [AnySequence]
      else if c = 0x5F then [AnyOne] else [Literal c])"
| "likeTokens (c # d # cs) =
     (if c = 0x5C then Literal d # likeTokens cs
      else if c = 0x25 then AnySequence # likeTokens (d # cs)
      else if c = 0x5F then AnyOne # likeTokens (d # cs)
      else Literal c # likeTokens (d # cs))"

section \<open>The environment of a PTY child\<close>

definition ENV_ALLOWLIST :: "jsstring list" where
  "ENV_ALLOWLIST = map asc [
     ''PATH'', ''HOME'', ''USER'', ''LOGNAME'', ''SHELL'', ''LANG'', ''LC_ALL'', ''LC_CTYPE'',
     ''TERM'', ''COLORTERM'', ''DISPLAY'', ''WAYLAND_DISPLAY'', ''XDG_RUNTIME_DIR'',
     ''XDG_DATA_HOME'', ''XDG_CONFIG_HOME'', ''XDG_CACHE_HOME'',
     ''WSLENV'', ''WSL_DISTRO_NAME'', ''WSL_INTEROP'',
     ''SYSTEMROOT'', ''SYSTEMDRIVE'', ''WINDIR'', ''APPDATA'', ''LOCALAPPDATA'',
     ''PROGRAMFILES'', ''PROGRAMFILES(X86)'', ''COMMONPROGRAMFILES'',
     ''TEMP'', ''TMP'', ''USERPROFILE'', ''HOMEDRIVE'', ''HOMEPATH'',
     ''NUMBER_OF_PROCESSORS'', ''PROCESSOR_ARCHITECTURE'', ''OS'',
     ''COMSPEC'', ''PSModulePath'']"

type_synonym env = "jsstring \<rightharpoonup> jsstring"

text \<open>\<open>if (process.env[key])\<close>: the variable is set and not the empty string.\<close>

definition truthy :: "jsstring option \<Rightarrow> bool" where
  "truthy v = (case v of None \<Rightarrow> False | Some x \<Rightarrow> x \<noteq> [])"

definition copyAllowed :: "env \<Rightarrow> env \<Rightarrow> jsstring \<Rightarrow> env" where
  "copyAllowed processEnv env key =
     (case processEnv key of
        None \<Rightarrow> env
      | Some v \<Rightarrow> if v \<noteq> [] then env(key \<mapsto> v) else env)"

definition getSanitizedEnv :: "env \<Rightarrow> env" where
  "getSanitizedEnv processEnv =
     (let env0 = foldl (copyAllowed processEnv) Map.empty ENV_ALLOWLIST;
          env1 = env0(asc ''TERM'' \<mapsto> asc ''xterm-256color'');
          env2 = env1(asc ''COLORTERM'' \<mapsto> asc ''truecolor'')
      in env2(asc ''LANG'' \<mapsto>
           (case env2 (asc ''LANG'') of
              None \<Rightarrow> asc ''en_US.UTF-8''
            | Some v \<Rightarrow> if v \<noteq> [] then v else asc ''en_US.UTF-8'')))"

text \<open>The options \<open>shell:spawn\<close> hands to \<open>nodePty.spawn\<close>.\<close>

record spawnOptions =
  opt_name :: jsstring
  opt_cols :: nat
  opt_rows :: nat
  opt_cwd :: jsstring
  opt_env :: env

definition ptySpawnOptions :: "env \<Rightarrow> jsstring \<Rightarrow> spawnOptions" where
  "ptySpawnOptions processEnv cwd =
     \<lparr>opt_name = asc ''xterm-256color'', opt_cols = 120, opt_rows = 30, opt_cwd = cwd,
      opt_env = getSanitizedEnv processEnv\<rparr>"

section \<open>The supervisor's session clean-up\<close>

record PtySession =
  ps_pty :: nat
  ps_ptyId :: jsstring
  ps_workspaceId :: jsstring
  ps_workspacePath :: jsstring
  ps_cliType :: CLIType
  ps_sessionId :: jsstring
  ps_oneShotCommand :: "jsstring option"

datatype sessionStatus = Active | Ended

text \<open>
  What clean-up does to the outside, in order: the handle leaving the session map, the
  \<open>kill\<close> of the child (with whether it went through or threw), the two statements on
  the store, the idle-notification timeout being cleared.
\<close>

datatype effect =
    SessionRemoved jsstring
  | PtyKill nat bool
  | EndAgentSession jsstring
  | DeleteContinuationState jsstring
  | ClearIdleTimer nat

text \<open>
  The main process: its three maps, the continuation module, and of the store the
  \<open>status\<close> column of \<open>agent_sessions\<close> by id and the keys of \<open>continuation_state\<close>.
  \<open>killThrows\<close> says for which children \<open>pty.kill()\<close> throws (the process is gone).
\<close>

record supervisor =
  ptySessions :: "jsstring \<rightharpoonup> PtySession"
  idleNotifTimers :: "jsstring \<rightharpoonup> nat"
  sessionHadActivity :: "jsstring set"
  continuation :: engine
  agentSessions :: "jsstring \<rightharpoonup> sessionStatus"
  continuationRows :: "jsstring set"
  killThrows :: "nat \<Rightarrow> bool"
  effects :: "effect list"

definition logEffect :: "effect \<Rightarrow> supervisor \<Rightarrow> supervisor" where
  "logEffect x s = s\<lparr>effects := effects s @ [x]\<rparr>"

text \<open>\<open>UPDATE agent_sessions SET status = 'ended', ... WHERE id = ?\<close>\<close>

definition endAgentSession :: "jsstring \<Rightarrow> supervisor \<Rightarrow> supervisor" where
  "endAgentSession sid s =
     logEffect (EndAgentSession sid)
       (s\<lparr>agentSessions := (case agentSessions s sid of
                               None \<Rightarrow> agentSessions s
                             | Some _ \<Rightarrow> (agentSessions s)(sid \<mapsto> Ended))\<rparr>)"

text \<open>\<open>DELETE FROM continuation_state WHERE pty_id = ?\<close>\<close>

definition deleteContinuationState :: "jsstring \<Rightarrow> supervisor \<Rightarrow> supervisor" where
  "deleteContinuationState p s =
     logEffect (DeleteContinuationState p) (s\<lparr>continuationRows := continuationRows s - {p}\<rparr>)"

text \<open>\<open>try { ptySession.pty.kill() } catch { }\<close>\<close>

definition tryKill :: "nat \<Rightarrow> supervisor \<Rightarrow> supervisor" where
  "tryKill h s = logEffect (PtyKill h (\<not> killThrows s h)) s"

definition cleanupPtySession :: "jsstring \<Rightarrow> supervisor \<Rightarrow> supervisor" where
  "cleanupPtySession p s =
     (case ptySessions s p of
        None \<Rightarrow> s
      | Some ptySession \<Rightarrow>
          (let s1 = logEffect (SessionRemoved p) (s\<lparr>ptySessions := (ptySessions s)(p := None)\<rparr>);
               s2 = tryKill (ps_pty ptySession) s1;
               s3 = endAgentSession (ps_sessionId ptySession) s2;
               s4 = deleteContinuationState p s3;
               s5 = (case idleNotifTimers s4 p of
                       Some t \<Rightarrow> logEffect (ClearIdleTimer t) s4
                     | None \<Rightarrow> s4);
               s6 = s5\<lparr>idleNotifTimers := (idleNotifTimers s5)(p := None),
                       sessionHadActivity := sessionHadActivity s5 - {p}\<rparr>
           in s6\<lparr>continuation := stopContinuation p (continuation s6)\<rparr>))"

text \<open>
  The handler of \<open>shell:kill\<close>: \<open>assertString\<close> throws on anything but a string, then the
  clean-up runs and \<open>{ ok: true }\<close> is returned.
\<close>

definition shellKill :: "jsvalue \<Rightarrow> supervisor \<Rightarrow> (thrown + bool) \<times> supervisor" where
  "shellKill v s =
     (case v of
        JsString p \<Rightarrow> (Inr True, cleanupPtySession p s)
      | _ \<Rightarrow> (Inl (JsError (asc ''ptyId must be a string'')), s))"

section \<open>Hidden single-shot runs and best-of-N synthesis\<close>

text \<open>Template literals print a number in decimal.\<close>

function showNat :: "nat \<Rightarrow> jsstring" where
  "showNat n = (if n < 10 then [of_nat (48 + n)] else showNat (n div 10) @ [of_nat (48 + n mod 10)])"
  by pat_completeness auto
termination
  by (relation "measure id") auto

declare showNat.simps [simp del]

definition showInt :: "int \<Rightarrow> jsstring" where
  "showInt i = (if i < 0 then 0x2D # showNat (nat (- i)) else showNat (nat i))"

text \<open>\<open>String.prototype.trim\<close> removes the white space and line terminators at both ends.\<close>

definition trimJs :: "jsstring \<Rightarrow> jsstring" where
  "trimJs s = rev (dropWhile isSpace (rev (dropWhile isSpace s)))"

record HiddenOptions =
  sessionId :: "jsstring option"
  isolatedHomeDir :: "jsstring option"
  noSessionPersistence :: bool

text \<open>The argument vector: \<open>if (options?.sessionId)\<close> holds for a non-empty string.\<close>

definition hiddenArgs :: "HiddenOptions \<Rightarrow> jsstring list" where
  "hiddenArgs options =
     [asc ''-p'']
     @ (if noSessionPersistence options then [asc ''--no-session-persistence''] else [])
     @ (case sessionId options of
          None \<Rightarrow> []
        | Some sid \<Rightarrow> if sid \<noteq> [] then [asc ''--session-id'', sid] else [])"

text \<open>
  What the child and the event loop do with one run: whether \<open>spawn\<close> throws, the events
  of the child in the order they are delivered, and how many of them are delivered before
  the 600000 ms timeout comes due (it fires then, unless it was cleared).
\<close>

datatype childEvent =
    StdoutData jsstring
  | StderrData jsstring
  | ErrorEvent jsstring
  | CloseEvent "int option" "jsstring option"


record childRun =
  spawnThrows :: "jsstring option"
  childEvents :: "childEvent list"
  beforeTimeout :: nat

datatype procEffect =
    Spawn jsstring "jsstring list" jsstring
  | StdinEnd jsstring
  | ChildKill

record hiddenState =
  hs_output :: jsstring
  hs_finished :: bool
  hs_resolved :: "jsstring option"
  hs_effects :: "procEffect list"

text \<open>A promise settles once: a later \<open>resolve\<close> changes nothing.\<close>

definition resolve :: "jsstring \<Rightarrow> hiddenState \<Rightarrow> hiddenState" where
  "resolve v st = (case hs_resolved st of None \<Rightarrow> st\<lparr>hs_resolved := Some v\<rparr> | Some _ \<Rightarrow> st)"

definition exitCodeText :: "int option \<Rightarrow> jsstring" where
  "exitCodeText c =
     (case c of
        None \<Rightarrow> asc ''(exit code unknown)''
      | Some k \<Rightarrow> if k = 0 then asc ''(empty)'' else asc ''(exit code '' @ showInt k @ asc '')'')"

text \<open>
  The value the \<open>close\<close> handler resolves with. \<open>sanitize\<close> stands for
  \<open>sanitizeHiddenClaudeOutput\<close>, a filter on the text of the answer.
\<close>

definition closeResult ::
  "(jsstring \<Rightarrow> jsstring) \<Rightarrow> jsstring \<Rightarrow> int option \<Rightarrow> jsstring option \<Rightarrow> jsstring" where
  "closeResult sanitize out c signal =
     (if trimJs out \<noteq> [] then
        (if sanitize (trimJs out) \<noteq> [] then sanitize (trimJs out) else asc ''(empty)'')
      else
        (case signal of
           None \<Rightarrow> exitCodeText c
         | Some sg \<Rightarrow> if sg \<noteq> [] then asc ''(terminated: '' @ sg @ asc '')'' else exitCodeText c))"

fun onChildEvent :: "(jsstring \<Rightarrow> jsstring) \<Rightarrow> hiddenState \<Rightarrow> childEvent \<Rightarrow> hiddenState" where
  "onChildEvent sanitize st (StdoutData d) = st\<lparr>hs_output := hs_output st @ d\<rparr>"
| "onChildEvent sanitize st (StderrData d) = st\<lparr>hs_output := hs_output st @ d\<rparr>"
| "onChildEvent sanitize st (ErrorEvent msg) =
     (if hs_finished st then st
      else resolve (asc ''(runner error: '' @ msg @ asc '')'') (st\<lparr>hs_finished := True\<rparr>))"
| "onChildEvent sanitize st (CloseEvent c signal) =
     (if hs_finished st then st
      else resolve (closeResult sanitize (hs_output st) c signal) (st\<lparr>hs_finished := True\<rparr>))"

text \<open>The callback of the timeout. A handler that finished first has cleared it.\<close>

definition onTimeout :: "hiddenState \<Rightarrow> hiddenState" where
  "onTimeout st =
     (if hs_finished st then st
      else resolve (asc ''(timed out)'')
             (st\<lparr>hs_finished := True, hs_effects := hs_effects st @ [ChildKill]\<rparr>))"

definition runHiddenClaudeOnce ::
  "(jsstring \<Rightarrow> jsstring) \<Rightarrow> jsstring \<Rightarrow> jsstring \<Rightarrow> HiddenOptions \<Rightarrow> childRun \<Rightarrow> hiddenState" where
  "runHiddenClaudeOnce sanitize g cwd options child =
     (case spawnThrows child of
        Some msg \<Rightarrow>
          \<lparr>hs_output = [], hs_finished = False,
           hs_resolved = Some (asc ''(runner error: '' @ msg @ asc '')''),
           hs_effects = [Spawn (asc ''claude'') (hiddenArgs options) cwd]\<rparr>
      | None \<Rightarrow>
          foldl (onChildEvent sanitize)
            (onTimeout
              (foldl (onChildEvent sanitize)
                \<lparr>hs_output = [], hs_finished = False, hs_resolved = None,
                 hs_effects = [Spawn (asc ''claude'') (hiddenArgs options) cwd, StdinEnd g]\<rparr>
                (take (beforeTimeout child) (childEvents child))))
            (drop (beforeTimeout child) (childEvents child)))"

datatype uiEvent =
    EnsembleProgress jsstring jsstring jsstring nat nat
  | EnsembleDone jsstring jsstring jsstring jsstring nat

record okPayload =
  ok :: bool
  count :: nat
  pl_sessionId :: jsstring
  pl_jobId :: jsstring

text \<open>
  What one job meets: whether the workspace directory exists, the job id that \<open>Date.now\<close>
  and \<open>Math.random\<close> produce, the random bytes \<open>crypto.randomUUID\<close> draws, for each run the
  error of \<open>createIsolatedClaudeHome\<close> (if it throws), the home it makes and its child, the
  child of the final run, the order in which the runs complete, and for the k-th message
  of the job whether \<open>mainWindow\<close> is there to receive it.
\<close>

record jobWorld =
  dirExists :: bool
  newJobId :: jsstring
  randomBytes :: "nat \<Rightarrow> 8 word"
  homeThrows :: "nat \<Rightarrow> thrown option"
  homeDir :: "nat \<Rightarrow> jsstring"
  childOf :: "nat \<Rightarrow> childRun"
  finalChild :: childRun
  completionOrder :: "nat list"
  windowAt :: "nat \<Rightarrow> bool"

text \<open>
  \<open>crypto.randomUUID()\<close>: sixteen random bytes, the version and variant bits of RFC 4122
  set in the seventh and the ninth, printed as 8-4-4-4-12 lower-case hexadecimal digits.
\<close>

definition hexDigit :: "nat \<Rightarrow> jschar" where
  "hexDigit n = of_nat (if n < 10 then 48 + n else 87 + n)"

definition hexByte :: "8 word \<Rightarrow> jsstring" where
  "hexByte b = [hexDigit (unat b div 16), hexDigit (unat b mod 16)]"

definition uuidByte :: "(nat \<Rightarrow> 8 word) \<Rightarrow> nat \<Rightarrow> 8 word" where
  "uuidByte r i =
     (if i = 6 then (r 6 AND 0x0F) OR 0x40 else if i = 8 then (r 8 AND 0x3F) OR 0x80 else r i)"

definition uuidText :: "(nat \<Rightarrow> 8 word) \<Rightarrow> jsstring" where
  "uuidText r =
     concat (map (\<lambda>i. hexByte (uuidByte r i)) [0, 1, 2, 3]) @ [0x2D]
     @ concat (map (\<lambda>i. hexByte (uuidByte r i)) [4, 5]) @ [0x2D]
     @ concat (map (\<lambda>i. hexByte (uuidByte r i)) [6, 7]) @ [0x2D]
     @ concat (map (\<lambda>i. hexByte (uuidByte r i)) [8, 9]) @ [0x2D]
     @ concat (map (\<lambda>i. hexByte (uuidByte r i)) [10, 11, 12, 13, 14, 15])"

definition randomUUID :: "jobWorld \<Rightarrow> jsstring" where
  "randomUUID w = uuidText (randomBytes w)"

record jobState =
  results :: "jsstring option list"
  completed :: nat
  sent :: "uiEvent list"
  sendCount :: nat

text \<open>\<open>mainWindow?.webContents.send(...)\<close>\<close>

definition sendToWindow :: "jobWorld \<Rightarrow> uiEvent \<Rightarrow> jobState \<Rightarrow> jobState" where
  "sendToWindow w ev st =
     st\<lparr>sent := (if windowAt w (sendCount st) then sent st @ [ev] else sent st),
        sendCount := Suc (sendCount st)\<rparr>"

definition jobRun ::
  "(jsstring \<Rightarrow> jsstring) \<Rightarrow> jobWorld \<Rightarrow> jsstring \<Rightarrow> jsstring \<Rightarrow> nat \<Rightarrow> hiddenState" where
  "jobRun sanitize w g workspacePath index =
     runHiddenClaudeOnce sanitize g workspacePath
       \<lparr>sessionId = None, isolatedHomeDir = Some (homeDir w index), noSessionPersistence = True\<rparr>
       (childOf w index)"

definition runHeader :: "nat \<Rightarrow> nat \<Rightarrow> jsstring" where
  "runHeader index n =
     asc ''=== Claude '' @ showNat (index + 1) @ asc ''/'' @ showNat n @ asc '' ==='' @ [0x0A]"

text \<open>The part of a run after its \<open>await\<close>: it runs when the hidden run has resolved.\<close>

definition completeRun ::
  "(jsstring \<Rightarrow> jsstring) \<Rightarrow> jobWorld \<Rightarrow> jsstring \<Rightarrow> jsstring \<Rightarrow> jsstring \<Rightarrow> nat \<Rightarrow>
   jobState \<Rightarrow> nat \<Rightarrow> jobState" where
  "completeRun sanitize w workspaceId workspacePath g n st index =
     (case hs_resolved (jobRun sanitize w g workspacePath index) of
        None \<Rightarrow> st
      | Some text \<Rightarrow>
          sendToWindow w
            (EnsembleProgress (newJobId w) workspaceId g (completed st + 1) n)
            (st\<lparr>results := (results st)[index := Some (runHeader index n @ text)],
                completed := completed st + 1\<rparr>))"

definition synthPrompt :: "nat \<Rightarrow> jsstring option list \<Rightarrow> jsstring" where
  "synthPrompt n rs =
     asc ''You are a world-class synthesizer. Here are '' @ showNat n
       @ asc '' independent answers to the same task:'' @ [0x0A, 0x0A]
       @ joinWith [0x0A, 0x0A] (map (\<lambda>r. case r of None \<Rightarrow> [] | Some t \<Rightarrow> t) rs)
       @ [0x0A, 0x0A]
       @ asc ''Produce one final, concise, high-quality answer that is better than any individual response.''"

definition jobAfterRuns ::
  "(jsstring \<Rightarrow> jsstring) \<Rightarrow> jobWorld \<Rightarrow> jsstring \<Rightarrow> jsstring \<Rightarrow> jsstring \<Rightarrow> jsvalue \<Rightarrow> jobState" where
  "jobAfterRuns sanitize w workspaceId workspacePath g n =
     foldl (completeRun sanitize w workspaceId workspacePath g (nat (synthesisCount n)))
       (sendToWindow w
          (EnsembleProgress (newJobId w) workspaceId g 0 (nat (synthesisCount n)))
          \<lparr>results = replicate (nat (synthesisCount n)) None, completed = 0, sent = [],
           sendCount = 0\<rparr>)
       (completionOrder w)"

definition jobFinalRun ::
  "(jsstring \<Rightarrow> jsstring) \<Rightarrow> jobWorld \<Rightarrow> jsstring \<Rightarrow> jsstring \<Rightarrow> jsstring \<Rightarrow> jsvalue \<Rightarrow> hiddenState" where
  "jobFinalRun sanitize w workspaceId workspacePath g n =
     runHiddenClaudeOnce sanitize
       (synthPrompt (nat (synthesisCount n))
          (results (jobAfterRuns sanitize w workspaceId workspacePath g n)))
       workspacePath
       \<lparr>sessionId = Some (randomUUID w), isolatedHomeDir = None, noSessionPersistence = False\<rparr>
       (finalChild w)"

text \<open>
  The handler of \<open>ensemble:synthesis\<close>: what it returns (or throws) and the messages the
  window receives. The homes are made when the runs are launched, in index order, so
  \<open>Promise.all\<close> rejects with the error of the first index whose home cannot be made; the
  other runs still complete and report their progress. A hidden run that never resolved
  would leave the handler waiting: it returns nothing then.
\<close>

definition ensembleSynthesis ::
  "(jsstring \<Rightarrow> jsstring) \<Rightarrow> jobWorld \<Rightarrow> jsstring \<Rightarrow> jsstring \<Rightarrow> jsstring \<Rightarrow> jsvalue \<Rightarrow>
   (thrown + okPayload) option \<times> uiEvent list" where
  "ensembleSynthesis sanitize w workspaceId workspacePath g n =
     (if \<not> dirExists w
      then (Some (Inl (JsError (asc ''Directory not found: '' @ workspacePath))), [])
      else
        (case List.find (\<lambda>i. homeThrows w i \<noteq> None) [0..<nat (synthesisCount n)] of
           Some i \<Rightarrow>
             (Some (Inl (case homeThrows w i of Some err \<Rightarrow> err | None \<Rightarrow> NotAnError)),
              sent (jobAfterRuns sanitize w workspaceId workspacePath g n))
         | None \<Rightarrow>
             if completed (jobAfterRuns sanitize w workspaceId workspacePath g n)
                  < nat (synthesisCount n)
                \<or> hs_resolved (jobFinalRun sanitize w workspaceId workspacePath g n) = None
             then (None, sent (jobAfterRuns sanitize w workspaceId workspacePath g n))
             else
               (Some (Inr \<lparr>ok = True, count = nat (synthesisCount n),
                           pl_sessionId = randomUUID w, pl_jobId = newJobId w\<rparr>),
                sent (sendToWindow w
                        (EnsembleDone (newJobId w) workspaceId g (randomUUID w)
                           (nat (synthesisCount n)))
                        (jobAfterRuns sanitize w workspaceId workspacePath g n)))))"

text \<open>
  A completion order the event loop can produce: every launched run completes exactly
  once, and no other.
\<close>

definition validOrder :: "jobWorld \<Rightarrow> nat \<Rightarrow> bool" where
  "validOrder w n \<longleftrightarrow>
     distinct (completionOrder w) \<and>
     set (completionOrder w) = {i. i < n \<and> homeThrows w i = None}"

definition progressValues :: "uiEvent list \<Rightarrow> nat list" where
  "progressValues evs =
     concat (map (\<lambda>ev. case ev of EnsembleProgress j ws g c t \<Rightarrow> [c] | _ \<Rightarrow> []) evs)"

definition isDone :: "uiEvent \<Rightarrow> bool" where
  "isDone ev = (case ev of EnsembleDone j ws g sid t \<Rightarrow> True | _ \<Rightarrow> False)"

section \<open>Inputs of the worked examples\<close>

definition designCard :: jsstring where
  "designCard = asc ''design the card layout''"

definition cssVuePrMerge :: jsstring where
  "cssVuePrMerge = asc ''css vue pr merge''"

text \<open>What \<open>escapeLike\<close> does to one character.\<close>

definition escapeChar :: "jschar \<Rightarrow> jsstring" where
  "escapeChar c = (if c = 0x5C \<or> c = 0x25 \<or> c = 0x5F then [0x5C, c] else [c])"


text \<open>A one-shot loop: all hooks of the main process, a kick-off, no prompt check.\<close>

definition allHooks :: ContinuationHooks where
  "allHooks = \<lparr>onIteration = True, onDone = True, onMaxReached = True, onCancelled = False\<rparr>"

definition loopOptions :: ContinuationStartOptions where
  "loopOptions = \<lparr>kickOff = True, requirePrompt_opt = Some False, quietDelayMs_opt = Some 1000\<rparr>"

definition loopRun :: "action list" where
  "loopRun = [Start (asc ''pty_1'') (asc ''x'') 2 0 allHooks loopOptions, Fire 0, Fire 1]"

definition loopFinal :: ContinuationState where
  "loopFinal = \<lparr>ptyId = asc ''pty_1'', goal = asc ''x'', maxIterations = 2, currentIteration = 2,
     status = MaxReached, requirePrompt = False, quietDelayMs = 1000, timer = None,
     outputBuffer = [], window = 0, hooks = allHooks\<rparr>"

text \<open>A watched session: the timer is armed at the start and again after the output.\<close>

definition promptOptions :: ContinuationStartOptions where
  "promptOptions = \<lparr>kickOff = False, requirePrompt_opt = None, quietDelayMs_opt = Some 250\<rparr>"

definition watched :: "jsstring \<Rightarrow> action list" where
  "watched out = [Start (asc ''pty_1'') (asc ''x'') 3 0 allHooks promptOptions, PtyData (asc ''pty_1'') out]"

definition watchedState :: "jsstring \<Rightarrow> ContinuationState" where
  "watchedState out = \<lparr>ptyId = asc ''pty_1'', goal = asc ''x'', maxIterations = 3, currentIteration = 0,
     status = Running, requirePrompt = True, quietDelayMs = 250, timer = Some 1,
     outputBuffer = out, window = 0, hooks = allHooks\<rparr>"

definition watchedDestroyed :: "action list" where
  "watchedDestroyed = watched (asc ''working'') @ [DestroyWindow 0]"

text \<open>A run started the way both versions of the engine start one.\<close>

definition noHooks :: ContinuationHooks where
  "noHooks = \<lparr>onIteration = False, onDone = False, onMaxReached = False, onCancelled = False\<rparr>"

definition defaultOptions :: ContinuationStartOptions where
  "defaultOptions = \<lparr>kickOff = False, requirePrompt_opt = None, quietDelayMs_opt = None\<rparr>"

definition started :: "action list" where
  "started = [Start (asc ''pty_1'') (asc ''x'') 20 0 noHooks defaultOptions]"

definition startedState :: ContinuationState where
  "startedState = \<lparr>ptyId = asc ''pty_1'', goal = asc ''x'', maxIterations = 20, currentIteration = 0,
     status = Running, requirePrompt = True, quietDelayMs = 12000, timer = Some 0,
     outputBuffer = [], window = 0, hooks = noHooks\<rparr>"

definition demoRow :: MemoryRow where
  "demoRow = \<lparr>mem_id = 1, mem_key = asc ''notes'', mem_content = asc ''use c++ here'',
     mem_category = asc ''core'', mem_createdAt = asc ''2026-01-01 00:00:00''\<rparr>"

text \<open>A store whose FTS index has no match for the query, while the \<open>LIKE\<close> scan finds a row.\<close>

definition noMatchDb :: stmts where
  "noMatchDb = \<lparr>ftsRows = (\<lambda>ws q. Inr []), likeRows = (\<lambda>ws p1 p2. Inr [demoRow])\<rparr>"

text \<open>A store where \<open>MATCH\<close> rejects the query, and one whose file is damaged.\<close>

definition syntaxErrorDb :: stmts where
  "syntaxErrorDb =
     \<lparr>ftsRows = (\<lambda>ws q. Inl (JsError (asc ''fts5: syntax error near +''))),
      likeRows = (\<lambda>ws p1 p2. Inr [demoRow])\<rparr>"

definition damagedDb :: stmts where
  "damagedDb =
     \<lparr>ftsRows = (\<lambda>ws q. Inl (JsError (asc ''database disk image is malformed''))),
      likeRows = (\<lambda>ws p1 p2. Inr [demoRow])\<rparr>"

text \<open>Two parents that differ in a variable outside the list.\<close>

definition parentA :: env where
  "parentA = [asc ''PATH'' \<mapsto> asc ''/usr/bin'', asc ''HOME'' \<mapsto> asc ''/home/u'',
              asc ''BUILD_TAG'' \<mapsto> asc ''one'', asc ''EDITOR'' \<mapsto> asc ''vi'']"

definition parentB :: env where
  "parentB = [asc ''PATH'' \<mapsto> asc ''/usr/bin'', asc ''HOME'' \<mapsto> asc ''/home/u'',
              asc ''BUILD_TAG'' \<mapsto> asc ''two'']"

text \<open>Two sessions, each with a continuation; the child of the first is gone already.\<close>

definition session1 :: PtySession where
  "session1 = \<lparr>ps_pty = 11, ps_ptyId = asc ''pty_1'', ps_workspaceId = asc ''ws'',
     ps_workspacePath = asc ''/w'', ps_cliType = Claude, ps_sessionId = asc ''s1'',
     ps_oneShotCommand = None\<rparr>"

definition session2 :: PtySession where
  "session2 = \<lparr>ps_pty = 12, ps_ptyId = asc ''pty_2'', ps_workspaceId = asc ''ws'',
     ps_workspacePath = asc ''/w'', ps_cliType = Gemini, ps_sessionId = asc ''s2'',
     ps_oneShotCommand = None\<rparr>"

definition twoRuns :: "action list" where
  "twoRuns = [Start (asc ''pty_1'') (asc ''x'') 20 0 allHooks loopOptions,
              Start (asc ''pty_2'') (asc ''y'') 20 0 allHooks loopOptions]"

definition twoSessions :: supervisor where
  "twoSessions =
     \<lparr>ptySessions = [asc ''pty_1'' \<mapsto> session1, asc ''pty_2'' \<mapsto> session2],
      idleNotifTimers = [asc ''pty_1'' \<mapsto> 7],
      sessionHadActivity = {asc ''pty_1''},
      continuation = run twoRuns,
      agentSessions = [asc ''s1'' \<mapsto> Active, asc ''s2'' \<mapsto> Active],
      continuationRows = {asc ''pty_1'', asc ''pty_2''},
      killThrows = (\<lambda>h. h = 11),
      effects = []\<rparr>"

text \<open>A child that prints and then hangs, one that answers at once.\<close>

definition slowChild :: childRun where
  "slowChild = \<lparr>spawnThrows = None,
     childEvents = [StdoutData (asc ''thinking''), CloseEvent (Some 0) None],
     beforeTimeout = 1\<rparr>"

definition quickChild :: childRun where
  "quickChild = \<lparr>spawnThrows = None,
     childEvents = [StdoutData (asc ''answer''), CloseEvent (Some 0) None],
     beforeTimeout = 2\<rparr>"

text \<open>A job of two runs: the second completes first, the first one times out.\<close>

definition demoWorld :: jobWorld where
  "demoWorld = \<lparr>dirExists = True, newJobId = asc ''synth_1_abc'',
     randomBytes = (\<lambda>i. 0xAB),
     homeThrows = (\<lambda>i. None), homeDir = (\<lambda>i. asc ''/tmp/home''),
     childOf = (\<lambda>i. if i = 0 then slowChild else quickChild),
     finalChild = quickChild, completionOrder = [1, 0], windowAt = (\<lambda>k. True)\<rparr>"

text \<open>The same job when the window has been closed.\<close>

definition noWindowWorld :: jobWorld where
  "noWindowWorld = demoWorld\<lparr>windowAt := (\<lambda>k. False)\<rparr>"

text \<open>
  A one-shot loop as \<open>continuation:start\<close> starts it when the renderer passes one half for
  \<open>maxIterations\<close>.
\<close>

definition oneShotOptions :: ContinuationStartOptions where
  "oneShotOptions = \<lparr>kickOff = True, requirePrompt_opt = None, quietDelayMs_opt = Some 1000\<rparr>"

definition halfCapRun :: "action list" where
  "halfCapRun =
     [Start (asc ''pty_1'') (asc ''x'') (continuationMax (JsNumber (Finite (1 / 2)))) 0 allHooks
        oneShotOptions]"

text \<open>A store whose FTS statement meets a quote that is not closed.\<close>

definition openQuoteDb :: stmts where
  "openQuoteDb =
     \<lparr>ftsRows = (\<lambda>ws q. Inl (JsError (asc ''unterminated string''))),
      likeRows = (\<lambda>ws p1 p2. Inr [demoRow])\<rparr>"


section \<open>Properties of the router\<close>

lemma isWordChar_ascii:
  "isWordChar 97" "isWordChar 98" "isWordChar 99" "isWordChar 100" "isWordChar 101"
  "isWordChar 102" "isWordChar 103" "isWordChar 104" "isWordChar 105" "isWordChar 106"
  "isWordChar 107" "isWordChar 108" "isWordChar 109" "isWordChar 110" "isWordChar 111"
  "isWordChar 112" "isWordChar 113" "isWordChar 114" "isWordChar 115" "isWordChar 116"
  "isWordChar 117" "isWordChar 118" "isWordChar 119" "isWordChar 120" "isWordChar 121"
  "isWordChar 122" "\<not> isWordChar 32"
  by (simp_all add: isWordChar_def)

lemma canonicalize_ascii:
  "canonicalize 97 = 65" "canonicalize 98 = 66" "canonicalize 99 = 67" "canonicalize 100 = 68"
  "canonicalize 101 = 69" "canonicalize 102 = 70" "canonicalize 103 = 71" "canonicalize 104 = 72"
  "canonicalize 105 = 73" "canonicalize 106 = 74" "canonicalize 107 = 75" "canonicalize 108 = 76"
  "canonicalize 109 = 77" "canonicalize 110 = 78" "canonicalize 111 = 79" "canonicalize 112 = 80"
  "canonicalize 113 = 81" "canonicalize 114 = 82" "canonicalize 115 = 83" "canonicalize 116 = 84"
  "canonicalize 117 = 85" "canonicalize 118 = 86" "canonicalize 119 = 87" "canonicalize 120 = 88"
  "canonicalize 121 = 89" "canonicalize 122 = 90" "canonicalize 32 = 32"
  by (simp_all add: canonicalize_def)

lemmas keyword_eval =
  regexTest_def wb_def wbw_def litI_def chrI_def code_def asc_def isWordAt_def nextChar_def
  isWordChar_ascii canonicalize_ascii matchedWeights_def

subsection \<open>Rounding to a double\<close>

lemma bitLength_0 [simp]: "bitLength 0 = 0"
  by (simp add: bitLength.simps)

lemma bitLength_pos: "0 < n \<Longrightarrow> bitLength n = Suc (bitLength (n div 2))"
  by (subst bitLength.simps) simp

lemma bitLength_bounds: "0 < n \<Longrightarrow> 2 ^ (bitLength n - 1) \<le> n \<and> n < 2 ^ bitLength n"
proof (induction n rule: less_induct)
  case (less n)
  show ?case
  proof (cases "n div 2 = 0")
    case True
    then have "n = 1" using less.prems by (auto simp: div_eq_0_iff)
    then show ?thesis by (simp add: bitLength_pos)
  next
    case False
    then have h: "0 < n div 2" "n div 2 < n" using less.prems by auto
    from less.IH [OF h(2) h(1)]
    have ih: "2 ^ (bitLength (n div 2) - 1) \<le> n div 2" "n div 2 < 2 ^ bitLength (n div 2)"
      by simp_all
    have b: "0 < bitLength (n div 2)" using h(1) by (simp add: bitLength_pos)
    then obtain k where k: "bitLength (n div 2) = Suc k" by (cases "bitLength (n div 2)") auto
    have "2 ^ Suc k \<le> 2 * (n div 2)" using ih(1) by (simp add: k)
    also have "\<dots> \<le> n" by simp
    finally have lo: "2 ^ Suc k \<le> n" .
    have "n < 2 * (n div 2) + 2" by arith
    also have "\<dots> \<le> 2 * 2 ^ Suc k" using ih(2) by (simp add: k)
    finally have hi: "n < 2 ^ Suc (Suc k)" by simp
    show ?thesis using lo hi by (simp add: bitLength_pos [OF less.prems] k)
  qed
qed

lemma bitLength_unique:
  assumes lo: "2 ^ k \<le> n" and hi: "n < 2 ^ Suc k"
  shows "bitLength n = Suc k"
proof -
  have pos: "0 < n" using lo by (metis less_le_trans zero_less_numeral zero_less_power)
  from bitLength_bounds [OF pos]
  have b: "2 ^ (bitLength n - 1) \<le> n" "n < 2 ^ bitLength n" by simp_all
  have "(2::nat) ^ k < 2 ^ bitLength n" using lo b(2) by (rule le_less_trans)
  then have 1: "k < bitLength n" by (simp add: power_strict_increasing_iff)
  have "(2::nat) ^ (bitLength n - 1) < 2 ^ Suc k" using b(1) hi by (rule le_less_trans)
  then have 2: "bitLength n - 1 < Suc k" by (simp only: power_strict_increasing_iff one_less_numeral_iff semiring_norm)
  show ?thesis using 1 2 by arith
qed

lemma binade_eq:
  assumes lo: "pow2 e \<le> x" and hi: "x < pow2 (e + 1)"
  shows "binade x = e"
proof (cases "0 \<le> e")
  case True
  define k where "k = nat e"
  have e: "e = int k" using True by (simp add: k_def)
  have lo': "(2::rat) ^ k \<le> x" using lo by (simp add: pow2_def e)
  have hi': "x < (2::rat) ^ Suc k" using hi by (simp add: pow2_def e nat_add_distrib)
  have one: "1 \<le> x" using lo' by (rule order_trans [rotated]) simp
  have "(of_int (2 ^ k) :: rat) \<le> x" using lo' by simp
  then have a: "(2::int) ^ k \<le> \<lfloor>x\<rfloor>" by (simp only: le_floor_iff)
  have "x < of_int (2 ^ Suc k)" using hi' by simp
  then have b: "\<lfloor>x\<rfloor> < (2::int) ^ Suc k" by (simp only: floor_less_iff)
  have nn: "0 \<le> \<lfloor>x\<rfloor>" using a by (rule order_trans [rotated]) simp
  have "int (2 ^ k) \<le> int (nat \<lfloor>x\<rfloor>)" using a nn by simp
  then have a': "2 ^ k \<le> nat \<lfloor>x\<rfloor>" by (simp only: of_nat_le_iff)
  have "int (nat \<lfloor>x\<rfloor>) < int (2 ^ Suc k)" using b nn by simp
  then have b': "nat \<lfloor>x\<rfloor> < 2 ^ Suc k" by (simp only: of_nat_less_iff)
  show ?thesis using one bitLength_unique [OF a' b'] by (simp add: binade_def e)
next
  case False
  define j where "j = nat (- e) - 1"
  have e: "e = - int (Suc j)" using False by (simp add: j_def)
  have p1: "pow2 e = 1 / 2 ^ Suc j"
  proof -
    have "nat (- e) = Suc j" using e by simp
    then show ?thesis using False by (simp add: pow2_def)
  qed
  have p2: "pow2 (e + 1) = 1 / 2 ^ j"
  proof (cases j)
    case 0
    then show ?thesis by (simp add: pow2_def e)
  next
    case (Suc i)
    then have "nat (- (e + 1)) = j" "\<not> 0 \<le> e + 1" using e by simp_all
    then show ?thesis by (simp add: pow2_def)
  qed
  have lo': "1 / (2::rat) ^ Suc j \<le> x" using lo by (simp only: p1)
  have hi': "x < 1 / (2::rat) ^ j" using hi by (simp only: p2)
  have pos: "0 < x" using lo' by (rule less_le_trans [rotated]) simp
  have lt1: "x < 1" using hi' by (rule less_le_trans) (simp add: field_simps)
  have inv_hi: "1 / x \<le> 2 ^ Suc j" using lo' pos by (simp add: field_simps)
  have inv_lo: "2 ^ j < 1 / x" using hi' pos by (simp add: field_simps)
  have "1 / x \<le> of_int (2 ^ Suc j)" using inv_hi by simp
  then have a: "\<lceil>1 / x\<rceil> \<le> (2::int) ^ Suc j" by (simp only: ceiling_le_iff)
  have "of_int (2 ^ j) < 1 / x" using inv_lo by simp
  then have b: "(2::int) ^ j < \<lceil>1 / x\<rceil>" by (simp only: less_ceiling_iff)
  have nn: "0 \<le> \<lceil>1 / x\<rceil> - 1"
  proof -
    have "(0::int) < 2 ^ j" by simp
    then show ?thesis using b by linarith
  qed
  have "int (nat (\<lceil>1 / x\<rceil> - 1)) < int (2 ^ Suc j)" using a nn by simp
  then have a': "nat (\<lceil>1 / x\<rceil> - 1) < 2 ^ Suc j" by (simp only: of_nat_less_iff)
  have "int (2 ^ j) \<le> int (nat (\<lceil>1 / x\<rceil> - 1))" using b nn by simp
  then have b': "2 ^ j \<le> nat (\<lceil>1 / x\<rceil> - 1)" by (simp only: of_nat_le_iff)
  show ?thesis using lt1 bitLength_unique [OF b' a'] by (simp add: binade_def e)
qed

lemma roundHalfEven_near: "\<bar>q - of_int n\<bar> < 1 / 2 \<Longrightarrow> roundHalfEven q = n"
proof -
  assume a: "\<bar>q - of_int n\<bar> < 1 / 2"
  have f: "of_int \<lfloor>q\<rfloor> \<le> q" "q < of_int \<lfloor>q\<rfloor> + 1" by linarith+
  have bnd: "of_int n - 1 / 2 < q" "q < of_int n + 1 / 2" using a by linarith+
  have "\<lfloor>q\<rfloor> = n \<or> \<lfloor>q\<rfloor> = n - 1"
  proof -
    from bnd have "(of_int (n - 1) :: rat) \<le> q" "q < of_int (n + 1)" by simp_all
    then have "n - 1 \<le> \<lfloor>q\<rfloor>" "\<lfloor>q\<rfloor> < n + 1" by (simp_all only: le_floor_iff floor_less_iff)
    then show ?thesis by arith
  qed
  then show ?thesis
  proof
    assume "\<lfloor>q\<rfloor> = n"
    then show ?thesis using a f by (simp add: roundHalfEven_def)
  next
    assume e: "\<lfloor>q\<rfloor> = n - 1"
    then have "1 / 2 < q - of_int \<lfloor>q\<rfloor>" using bnd(1) by simp
    then show ?thesis using e by (simp add: roundHalfEven_def)
  qed
qed

lemma roundHalfEven_tie_down: "q = of_int n + 1 / 2 \<Longrightarrow> even n \<Longrightarrow> roundHalfEven q = n"
proof -
  assume q: "q = of_int n + 1 / 2" and ev: "even n"
  have "\<lfloor>q\<rfloor> = n" unfolding q by (simp add: floor_unique)
  then show ?thesis using q ev by (simp add: roundHalfEven_def)
qed

lemma roundHalfEven_tie_up: "q = of_int n - 1 / 2 \<Longrightarrow> even n \<Longrightarrow> roundHalfEven q = n"
proof -
  assume q: "q = of_int n - 1 / 2" and ev: "even n"
  have "\<lfloor>q\<rfloor> = n - 1" unfolding q by (rule floor_unique) simp_all
  then show ?thesis using q ev by (simp add: roundHalfEven_def)
qed

lemma toDouble_eqI:
  assumes "pow2 e \<le> x" and "x < pow2 (e + 1)" and "- 1022 \<le> e"
    and "roundHalfEven (x / pow2 (e - 52)) = n"
    and "of_int n * pow2 (e - 52) = z"
  shows "toDouble x = z"
proof -
  have p: "0 < pow2 e" by (simp add: pow2_def)
  then have pos: "0 < x" using assms(1) by (rule less_le_trans)
  have b: "binade x = e" by (rule binade_eq [OF assms(1,2)])
  show ?thesis using pos assms(3,4,5) by (simp add: toDouble_def b max_def)
qed

subsection \<open>The sums of the router\<close>

text \<open>
  The additions and the two divisions that the router makes on the inputs below, each a
  rounded exact result.
\<close>

lemma double_1_1: "toDouble (1) = 1"
  by (rule toDouble_eqI [where e = "0" and n = 4503599627370496])
     (simp_all add: pow2_def roundHalfEven_near)

lemma dadd_1: "dadd (0) (1) = 1"
  unfolding dadd_def
  by (rule toDouble_eqI [where e = "0" and n = 4503599627370496])
     (simp_all add: pow2_def roundHalfEven_near)

lemma double_9_10: "toDouble (9 / 10) = 8106479329266893 / 9007199254740992"
  by (rule toDouble_eqI [where e = "- 1" and n = 8106479329266893])
     (simp_all add: pow2_def roundHalfEven_near)

lemma dadd_2: "dadd (1) (8106479329266893 / 9007199254740992) = 4278419646001971 / 2251799813685248"
  unfolding dadd_def
  by (rule toDouble_eqI [where e = "0" and n = 8556839292003942])
     (simp_all add: pow2_def roundHalfEven_tie_down)

lemma dadd_3: "dadd (4278419646001971 / 2251799813685248) (8106479329266893 / 9007199254740992) = 3152519739159347 / 1125899906842624"
  unfolding dadd_def
  by (rule toDouble_eqI [where e = "1" and n = 6305039478318694])
     (simp_all add: pow2_def roundHalfEven_near)

lemma dadd_4: "dadd (3152519739159347 / 1125899906842624) (1) = 4278419646001971 / 1125899906842624"
  unfolding dadd_def
  by (rule toDouble_eqI [where e = "1" and n = 8556839292003942])
     (simp_all add: pow2_def roundHalfEven_near)

lemma double_7_10: "toDouble (7 / 10) = 3152519739159347 / 4503599627370496"
  by (rule toDouble_eqI [where e = "- 1" and n = 6305039478318694])
     (simp_all add: pow2_def roundHalfEven_near)

lemma dadd_5: "dadd (4278419646001971 / 1125899906842624) (3152519739159347 / 4503599627370496) = 9 / 2"
  unfolding dadd_def
  by (rule toDouble_eqI [where e = "2" and n = 5066549580791808])
     (simp_all add: pow2_def roundHalfEven_near)

lemma double_4_5: "toDouble (4 / 5) = 3602879701896397 / 4503599627370496"
  by (rule toDouble_eqI [where e = "- 1" and n = 7205759403792794])
     (simp_all add: pow2_def roundHalfEven_near)

lemma dadd_6: "dadd (9 / 2) (3602879701896397 / 4503599627370496) = 5967269506265907 / 1125899906842624"
  unfolding dadd_def
  by (rule toDouble_eqI [where e = "2" and n = 5967269506265907])
     (simp_all add: pow2_def roundHalfEven_near)

lemma dadd_7: "dadd (5967269506265907 / 1125899906842624) (3152519739159347 / 4503599627370496) = 6"
  unfolding dadd_def
  by (rule toDouble_eqI [where e = "2" and n = 6755399441055744])
     (simp_all add: pow2_def roundHalfEven_near)

lemma dadd_8: "dadd (6) (3152519739159347 / 4503599627370496) = 7543529375845581 / 1125899906842624"
  unfolding dadd_def
  by (rule toDouble_eqI [where e = "2" and n = 7543529375845581])
     (simp_all add: pow2_def roundHalfEven_near)

lemma dadd_9: "dadd (7543529375845581 / 1125899906842624) (3152519739159347 / 4503599627370496) = 4165829655317709 / 562949953421312"
  unfolding dadd_def
  by (rule toDouble_eqI [where e = "2" and n = 8331659310635418])
     (simp_all add: pow2_def roundHalfEven_near)

lemma dadd_10: "dadd (4165829655317709 / 562949953421312) (8106479329266893 / 9007199254740992) = 2336242306698445 / 281474976710656"
  unfolding dadd_def
  by (rule toDouble_eqI [where e = "3" and n = 4672484613396890])
     (simp_all add: pow2_def roundHalfEven_near)

lemma dadd_11: "dadd (2336242306698445 / 281474976710656) (3602879701896397 / 4503599627370496) = 1280711144033485 / 140737488355328"
  unfolding dadd_def
  by (rule toDouble_eqI [where e = "3" and n = 5122844576133940])
     (simp_all add: pow2_def roundHalfEven_near)

lemma double_2_5: "toDouble (2 / 5) = 3602879701896397 / 9007199254740992"
  by (rule toDouble_eqI [where e = "- 2" and n = 7205759403792794])
     (simp_all add: pow2_def roundHalfEven_near)

lemma dadd_12: "dadd (1280711144033485 / 140737488355328) (3602879701896397 / 9007199254740992) = 5348024557502465 / 562949953421312"
  unfolding dadd_def
  by (rule toDouble_eqI [where e = "3" and n = 5348024557502465])
     (simp_all add: pow2_def roundHalfEven_near)

lemma dadd_13: "dadd (5348024557502465 / 562949953421312) (8106479329266893 / 9007199254740992) = 2927339757790823 / 281474976710656"
  unfolding dadd_def
  by (rule toDouble_eqI [where e = "3" and n = 5854679515581646])
     (simp_all add: pow2_def roundHalfEven_near)

lemma dadd_14: "dadd (2927339757790823 / 281474976710656) (3602879701896397 / 4503599627370496) = 788129934789837 / 70368744177664"
  unfolding dadd_def
  by (rule toDouble_eqI [where e = "3" and n = 6305039478318696])
     (simp_all add: pow2_def roundHalfEven_near)

lemma sum_visual_all: "doubleSum [1, 9 / 10, 9 / 10, 1, 7 / 10, 4 / 5, 7 / 10, 7 / 10, 7 / 10, 9 / 10, 4 / 5, 2 / 5, 9 / 10, 4 / 5] = 788129934789837 / 70368744177664"
  by (simp add: doubleSum_def double_1_1 dadd_1 double_9_10 dadd_2 dadd_3 dadd_4 double_7_10 dadd_5 double_4_5 dadd_6 dadd_7 dadd_8 dadd_9 dadd_10 dadd_11 double_2_5 dadd_12 dadd_13 dadd_14)

lemma dadd_15: "dadd (4278419646001971 / 2251799813685248) (1) = 6530219459687219 / 2251799813685248"
  unfolding dadd_def
  by (rule toDouble_eqI [where e = "1" and n = 6530219459687219])
     (simp_all add: pow2_def roundHalfEven_near)

lemma dadd_16: "dadd (6530219459687219 / 2251799813685248) (8106479329266893 / 9007199254740992) = 4278419646001971 / 1125899906842624"
  unfolding dadd_def
  by (rule toDouble_eqI [where e = "1" and n = 8556839292003942])
     (simp_all add: pow2_def roundHalfEven_near)

lemma dadd_17: "dadd (4278419646001971 / 1125899906842624) (3602879701896397 / 4503599627370496) = 2589569785738035 / 562949953421312"
  unfolding dadd_def
  by (rule toDouble_eqI [where e = "2" and n = 5179139571476070])
     (simp_all add: pow2_def roundHalfEven_near)

lemma dadd_18: "dadd (2589569785738035 / 562949953421312) (3602879701896397 / 4503599627370496) = 6079859496950169 / 1125899906842624"
  unfolding dadd_def
  by (rule toDouble_eqI [where e = "2" and n = 6079859496950169])
     (simp_all add: pow2_def roundHalfEven_near)

lemma dadd_19: "dadd (6079859496950169 / 1125899906842624) (1) = 7205759403792793 / 1125899906842624"
  unfolding dadd_def
  by (rule toDouble_eqI [where e = "2" and n = 7205759403792793])
     (simp_all add: pow2_def roundHalfEven_near)

lemma dadd_20: "dadd (7205759403792793 / 1125899906842624) (1) = 8331659310635417 / 1125899906842624"
  unfolding dadd_def
  by (rule toDouble_eqI [where e = "2" and n = 8331659310635417])
     (simp_all add: pow2_def roundHalfEven_near)

lemma sum_git_all: "doubleSum [1, 9 / 10, 1, 9 / 10, 4 / 5, 4 / 5, 1, 1] = 8331659310635417 / 1125899906842624"
  by (simp add: doubleSum_def double_1_1 dadd_1 double_9_10 dadd_2 dadd_15 dadd_16 double_4_5 dadd_17 dadd_18 dadd_19 dadd_20)

lemma dadd_21: "dadd (1) (3152519739159347 / 4503599627370496) = 7656119366529843 / 4503599627370496"
  unfolding dadd_def
  by (rule toDouble_eqI [where e = "0" and n = 7656119366529843])
     (simp_all add: pow2_def roundHalfEven_near)

lemma sum_css_vue: "doubleSum [1, 7 / 10] = 7656119366529843 / 4503599627370496"
  by (simp add: doubleSum_def double_1_1 dadd_1 double_7_10 dadd_21)

lemma dadd_22: "dadd (0) (8106479329266893 / 9007199254740992) = 8106479329266893 / 9007199254740992"
  unfolding dadd_def
  by (rule toDouble_eqI [where e = "- 1" and n = 8106479329266893])
     (simp_all add: pow2_def roundHalfEven_near)

lemma dadd_23: "dadd (8106479329266893 / 9007199254740992) (3602879701896397 / 4503599627370496) = 1914029841632461 / 1125899906842624"
  unfolding dadd_def
  by (rule toDouble_eqI [where e = "0" and n = 7656119366529844])
     (simp_all add: pow2_def roundHalfEven_tie_up)

lemma sum_pr_merge: "doubleSum [9 / 10, 4 / 5] = 1914029841632461 / 1125899906842624"
  by (simp add: doubleSum_def double_9_10 dadd_22 double_4_5 dadd_23)

lemma dadd_24: "dadd (0) (3602879701896397 / 9007199254740992) = 3602879701896397 / 9007199254740992"
  unfolding dadd_def
  by (rule toDouble_eqI [where e = "- 2" and n = 7205759403792794])
     (simp_all add: pow2_def roundHalfEven_near)

lemma dadd_25: "dadd (3602879701896397 / 9007199254740992) (8106479329266893 / 9007199254740992) = 5854679515581645 / 4503599627370496"
  unfolding dadd_def
  by (rule toDouble_eqI [where e = "0" and n = 5854679515581645])
     (simp_all add: pow2_def roundHalfEven_near)

lemma sum_design_layout: "doubleSum [2 / 5, 9 / 10] = 5854679515581645 / 4503599627370496"
  by (simp add: doubleSum_def double_2_5 dadd_24 double_9_10 dadd_25)

lemma quotient_pr_merge: "ddiv (1914029841632461 / 1125899906842624) (8331659310635417 / 1125899906842624) = 4138442900826943 / 18014398509481984"
  unfolding ddiv_def
  by (rule toDouble_eqI [where e = "- 3" and n = 8276885801653886])
     (simp_all add: pow2_def roundHalfEven_near)

lemma quotient_design_layout: "ddiv (5854679515581645 / 4503599627370496) (788129934789837 / 70368744177664) = 2090956969850587 / 18014398509481984"
  unfolding ddiv_def
  by (rule toDouble_eqI [where e = "- 4" and n = 8363827879402348])
     (simp_all add: pow2_def roundHalfEven_near)


subsection \<open>The loops of \<open>routeTask\<close>\<close>

lemma scoreRule_fold:
  "foldl (\<lambda>(totalWeight, matchedWeight) (pattern, weight).
              (dadd totalWeight (toDouble weight),
               if regexTest pattern d then dadd matchedWeight (toDouble weight)
               else matchedWeight)) (t, m) kws =
     (foldl (\<lambda>s w. dadd s (toDouble w)) t (map snd kws),
      foldl (\<lambda>s w. dadd s (toDouble w)) m
        (map snd (filter (\<lambda>kw. regexTest (fst kw) d) kws)))"
  by (induction kws arbitrary: t m) (auto simp: case_prod_beta)

lemma totalWeight_sum: "totalWeight d rule = doubleSum (map snd (rule_keywords rule))"
  by (simp add: totalWeight_def scoreRule_def scoreRule_fold doubleSum_def)

lemma matchedWeight_sum: "matchedWeight d rule = doubleSum (matchedWeights d rule)"
  by (simp add: matchedWeight_def scoreRule_def scoreRule_fold doubleSum_def matchedWeights_def)

lemma doubleSum_Nil: "doubleSum [] = 0"
  by (simp add: doubleSum_def)

lemma fold_max_ge: "(s::rat) \<le> fold max xs s"
  by (induction xs arbitrary: s) (auto intro: order_trans [OF max.cobounded2])

lemma routeStep_simp:
  "0 \<le> s \<Longrightarrow> routeStep d (b, s) r =
     (if s < matchedWeight d r then (Some (resultOf d r), matchedWeight d r) else (b, s))"
  by (auto simp: routeStep_def)

lemma foldl_routeStep:
  "0 \<le> s \<Longrightarrow>
   foldl (routeStep d) (b, s) rules =
     (if s < fold max (map (matchedWeight d) rules) s
      then map_option (resultOf d)
             (find (\<lambda>r. matchedWeight d r = fold max (map (matchedWeight d) rules) s) rules)
      else b,
      fold max (map (matchedWeight d) rules) s)"
proof (induction rules arbitrary: b s)
  case Nil
  then show ?case by simp
next
  case (Cons r rs)
  let ?m = "matchedWeight d"
  show ?case
  proof (cases "s < ?m r")
    case True
    then have pos: "0 \<le> ?m r" using Cons.prems by simp
    have mx: "max (?m r) s = ?m r" using True by simp
    have ge: "?m r \<le> fold max (map ?m rs) (?m r)" by (rule fold_max_ge)
    show ?thesis
      using True ge Cons.IH [OF pos, of "Some (resultOf d r)"] Cons.prems
      by (auto simp: routeStep_simp mx)
  next
    case False
    then have mx: "max (?m r) s = s" by simp
    have ge: "s \<le> fold max (map ?m rs) s" by (rule fold_max_ge)
    show ?thesis
      using False ge Cons.IH [OF Cons.prems, of b] Cons.prems
      by (auto simp: routeStep_simp mx)
  qed
qed

lemma fold_max_Max:
  "fold max xs (s::rat) = Max (insert s (set xs))"
proof (induction xs arbitrary: s)
  case Nil
  then show ?case by simp
next
  case (Cons x xs)
  have "Max (insert (max x s) (set xs)) = Max (insert s (insert x (set xs)))"
  proof (cases "set xs = {}")
    case True
    then show ?thesis by (simp add: max.commute)
  next
    case False
    then show ?thesis by (simp add: Max_insert max.assoc max.commute max.left_commute)
  qed
  then show ?case using Cons.IH [of "max x s"] by simp
qed

lemma routeWith_greatest:
  "routeWith rules d None =
     (case firstGreatest (matchedWeight d) rules of
        None \<Rightarrow> defaultRoute | Some r \<Rightarrow> resultOf d r)"
proof -
  let ?m = "matchedWeight d"
  let ?M = "fold max (map ?m rules) 0"
  have fold: "foldl (routeStep d) (None, 0) rules =
     (if 0 < ?M then map_option (resultOf d) (find (\<lambda>r. ?m r = ?M) rules) else None, ?M)"
    using foldl_routeStep [of 0 d None rules] by simp
  show ?thesis
  proof (cases "list_ex (\<lambda>r. 0 < ?m r) rules")
    case True
    then obtain r where r: "r \<in> set rules" "0 < ?m r" by (auto simp: list_ex_iff)
    then have ne: "set (map ?m rules) \<noteq> {}" by auto
    have "?m r \<le> Max (set (map ?m rules))" using r by (intro Max_ge) auto
    with r(2) have pos: "0 < Max (set (map ?m rules))" by (rule less_le_trans)
    have "?M = Max (insert 0 (set (map ?m rules)))" by (rule fold_max_Max)
    also have "\<dots> = max 0 (Max (set (map ?m rules)))" using ne by (simp add: Max_insert)
    also have "\<dots> = Max (set (map ?m rules))" using pos by simp
    finally have M: "?M = Max (set (map ?m rules))" .
    show ?thesis
      using True pos fold
      by (simp add: routeWith_def firstGreatest_def M del: set_map split: option.splits)
  next
    case False
    then have le: "\<forall>x \<in> set (map ?m rules). x \<le> 0" by (auto simp: list_ex_iff not_less)
    have "?M = Max (insert 0 (set (map ?m rules)))" by (rule fold_max_Max)
    also have "\<dots> \<le> 0" using le by (intro Max.boundedI) auto
    finally have "\<not> 0 < ?M" by simp
    then show ?thesis
      using False fold by (simp add: routeWith_def firstGreatest_def)
  qed
qed

lemma firstGreatest_index:
  assumes i: "i < length rules" and pos: "0 < m (rules ! i)"
    and mx: "\<forall>j < length rules. m (rules ! j) \<le> m (rules ! i)"
    and first: "\<forall>j < i. m (rules ! j) < m (rules ! i)"
  shows "firstGreatest m rules = Some (rules ! i)"
proof -
  have ex: "list_ex (\<lambda>r. 0 < m r) rules"
    using i pos by (auto simp: list_ex_iff)
  have M: "Max (set (map m rules)) = m (rules ! i)"
  proof (rule Max_eqI)
    show "finite (set (map m rules))" by simp
    fix y assume "y \<in> set (map m rules)"
    then obtain j where "j < length rules" "y = m (rules ! j)"
      by (auto simp: in_set_conv_nth)
    then show "y \<le> m (rules ! i)" using mx by simp
  next
    show "m (rules ! i) \<in> set (map m rules)" using i by simp
  qed
  have "find (\<lambda>r. m r = m (rules ! i)) rules = Some (rules ! i)"
    unfolding find_Some_iff using i first by (intro exI [of _ i]) (auto simp: less_le)
  then show ?thesis using ex by (simp add: firstGreatest_def M del: set_map)
qed

lemma firstGreatest_none:
  assumes "\<forall>r \<in> set rules. m r \<le> 0"
  shows "firstGreatest m rules = None"
  using assms by (auto simp: firstGreatest_def list_ex_iff not_less)

text \<open>
  The two loops, for every description: the result is made from the first rule whose
  sum, as the inner loop computed it, is the greatest, and it is the default when no
  keyword matches.
\<close>

lemma routeTask_first_greatest:
  "routeTask d None =
     (case firstGreatest (matchedWeight d) RULES of
        None \<Rightarrow> defaultRoute | Some r \<Rightarrow> resultOf d r)"
  by (simp add: routeTask_def routeWith_greatest)

lemma all_less_8: "(\<forall>j<8. P j) \<longleftrightarrow> P 0 \<and> P 1 \<and> P 2 \<and> P 3 \<and> P 4 \<and> P 5 \<and> P 6 \<and> P (7::nat)"
proof
  assume "\<forall>j<8. P j"
  then show "P 0 \<and> P 1 \<and> P 2 \<and> P 3 \<and> P 4 \<and> P 5 \<and> P 6 \<and> P 7" by simp
next
  assume a: "P 0 \<and> P 1 \<and> P 2 \<and> P 3 \<and> P 4 \<and> P 5 \<and> P 6 \<and> P 7"
  show "\<forall>j<8. P j"
  proof (intro allI impI)
    fix j :: nat assume "j < 8"
    then have "j = 0 \<or> j = 1 \<or> j = 2 \<or> j = 3 \<or> j = 4 \<or> j = 5 \<or> j = 6 \<or> j = 7" by arith
    then show "P j" using a by auto
  qed
qed

lemma firstGreatest_RULES:
  assumes "map m RULES = ws" and "i < 8" and "0 < ws ! i"
    and "\<forall>j<8. ws ! j \<le> ws ! i" and "\<forall>j<i. ws ! j < ws ! i"
  shows "firstGreatest m RULES = Some (RULES ! i)"
proof -
  have len: "length RULES = 8" by (simp add: RULES_def)
  have nth: "m (RULES ! j) = ws ! j" if "j < 8" for j
    using assms(1) that len by (metis nth_map)
  show ?thesis
  proof (rule firstGreatest_index)
    show "i < length RULES" using assms(2) len by simp
    show "0 < m (RULES ! i)" using assms(2,3) by (simp add: nth)
    show "\<forall>j<length RULES. m (RULES ! j) \<le> m (RULES ! i)"
      using assms(2,4) by (simp add: nth len)
    show "\<forall>j<i. m (RULES ! j) < m (RULES ! i)"
      using assms(2,5) by (simp add: nth)
  qed
qed

subsection \<open>The example of the specification\<close>

lemma designCard_deep: "matchedWeights designCard ruleDeep = []"
  by (simp add: designCard_def ruleDeep_def keyword_eval)

lemma designCard_visual: "matchedWeights designCard ruleVisual = [2 / 5, 9 / 10]"
  by (simp add: designCard_def ruleVisual_def keyword_eval)

lemma designCard_code: "matchedWeights designCard ruleCode = []"
  by (simp add: designCard_def ruleCode_def keyword_eval)

lemma designCard_git: "matchedWeights designCard ruleGit = []"
  by (simp add: designCard_def ruleGit_def keyword_eval)

lemma designCard_local: "matchedWeights designCard ruleLocal = []"
  by (simp add: designCard_def ruleLocal_def keyword_eval)

lemma designCard_research: "matchedWeights designCard ruleResearch = []"
  by (simp add: designCard_def ruleResearch_def keyword_eval)

lemma designCard_debug: "matchedWeights designCard ruleDebug = []"
  by (simp add: designCard_def ruleDebug_def keyword_eval)

lemma designCard_test: "matchedWeights designCard ruleTest = []"
  by (simp add: designCard_def ruleTest_def keyword_eval)

lemmas designCard_matches = designCard_deep designCard_visual designCard_code designCard_git designCard_local designCard_research designCard_debug designCard_test

lemma designCard_sums:
  "map (matchedWeight designCard) RULES =
     [0, 5854679515581645 / 4503599627370496, 0, 0, 0, 0, 0, 0]"
  by (simp add: RULES_def matchedWeight_sum designCard_matches doubleSum_Nil sum_design_layout)

lemma designCard_route:
  "routeTask (asc ''design the card layout'') None =
     \<lparr>cli = Gemini, category = Visual, rationale = ''Gemini for visual/frontend specialization'',
      confidence = 2090956969850587 / 18014398509481984\<rparr>"
proof -
  have "firstGreatest (matchedWeight designCard) RULES = Some (RULES ! 1)"
    by (rule firstGreatest_RULES [OF designCard_sums]) (simp_all add: all_less_8)
  moreover have "RULES ! 1 = ruleVisual" by (simp add: RULES_def)
  ultimately have g: "firstGreatest (matchedWeight designCard) RULES = Some ruleVisual"
    by (simp only:)
  have m: "matchedWeight designCard ruleVisual = 5854679515581645 / 4503599627370496"
    by (simp add: matchedWeight_sum designCard_visual sum_design_layout)
  have t: "totalWeight designCard ruleVisual = 788129934789837 / 70368744177664"
    by (simp add: totalWeight_sum ruleVisual_def sum_visual_all)
  have p: "rule_cli ruleVisual = Gemini" "rule_category ruleVisual = Visual"
    "rule_rationale ruleVisual = ''Gemini for visual/frontend specialization''"
    by (simp_all add: ruleVisual_def)
  have "routeTask designCard None = resultOf designCard ruleVisual"
    by (simp add: routeTask_first_greatest g)
  then have "routeTask designCard None =
     \<lparr>cli = Gemini, category = Visual, rationale = ''Gemini for visual/frontend specialization'',
      confidence = 2090956969850587 / 18014398509481984\<rparr>"
    by (simp add: resultOf_def m t p quotient_design_layout)
  then show ?thesis by (simp only: designCard_def)
qed

subsection \<open>Two rules of equal weight\<close>

lemma cssVuePrMerge_deep: "matchedWeights cssVuePrMerge ruleDeep = []"
  by (simp add: cssVuePrMerge_def ruleDeep_def keyword_eval)

lemma cssVuePrMerge_visual: "matchedWeights cssVuePrMerge ruleVisual = [1, 7 / 10]"
  by (simp add: cssVuePrMerge_def ruleVisual_def keyword_eval)

lemma cssVuePrMerge_code: "matchedWeights cssVuePrMerge ruleCode = []"
  by (simp add: cssVuePrMerge_def ruleCode_def keyword_eval)

lemma cssVuePrMerge_git: "matchedWeights cssVuePrMerge ruleGit = [9 / 10, 4 / 5]"
  by (simp add: cssVuePrMerge_def ruleGit_def keyword_eval)

lemma cssVuePrMerge_local: "matchedWeights cssVuePrMerge ruleLocal = []"
  by (simp add: cssVuePrMerge_def ruleLocal_def keyword_eval)

lemma cssVuePrMerge_research: "matchedWeights cssVuePrMerge ruleResearch = []"
  by (simp add: cssVuePrMerge_def ruleResearch_def keyword_eval)

lemma cssVuePrMerge_debug: "matchedWeights cssVuePrMerge ruleDebug = []"
  by (simp add: cssVuePrMerge_def ruleDebug_def keyword_eval)

lemma cssVuePrMerge_test: "matchedWeights cssVuePrMerge ruleTest = []"
  by (simp add: cssVuePrMerge_def ruleTest_def keyword_eval)

lemmas cssVuePrMerge_matches = cssVuePrMerge_deep cssVuePrMerge_visual cssVuePrMerge_code cssVuePrMerge_git cssVuePrMerge_local cssVuePrMerge_research cssVuePrMerge_debug cssVuePrMerge_test

lemma cssVuePrMerge_decimal:
  "map (decimalWeight cssVuePrMerge) RULES = [0, 17 / 10, 0, 17 / 10, 0, 0, 0, 0]"
  by (simp add: RULES_def decimalWeight_def cssVuePrMerge_matches)

lemma cssVuePrMerge_sums:
  "map (matchedWeight cssVuePrMerge) RULES =
     [0, 7656119366529843 / 4503599627370496, 0, 1914029841632461 / 1125899906842624,
      0, 0, 0, 0]"
  by (simp add: RULES_def matchedWeight_sum cssVuePrMerge_matches doubleSum_Nil
      sum_css_vue sum_pr_merge)

text \<open>
  Claim C5. With no preferred CLI, \<open>routeTask\<close> returns the rule whose matched keywords
  have the greatest total weight, the earlier rule on a tie, with the confidence
  \<open>matchedWeight / totalWeight\<close> capped at 1. For \<open>css vue pr merge\<close> the visual rule matches
  \<open>css\<close> (1.0) and \<open>vue\<close> (0.7), the git rule \<open>pr\<close> (0.9) and \<open>merge\<close> (0.8): 1.7 each, so the
  earlier rule, the visual one, is the winner the claim names. The program adds the
  weights as doubles: 1.0 + 0.7 is 1.7, and 0.9 + 0.8 is 1.7000000000000002, the next
  double. It returns the git rule, \<open>copilot\<close>.
\<close>

theorem routeTask_rounding_breaks_tie:
  "map (decimalWeight cssVuePrMerge) RULES = [0, 17 / 10, 0, 17 / 10, 0, 0, 0, 0] \<and>
   firstGreatest (decimalWeight cssVuePrMerge) RULES = Some ruleVisual \<and>
   map (matchedWeight cssVuePrMerge) RULES =
     [0, 7656119366529843 / 4503599627370496, 0, 1914029841632461 / 1125899906842624,
      0, 0, 0, 0] \<and>
   firstGreatest (matchedWeight cssVuePrMerge) RULES = Some ruleGit \<and>
   routeTask (asc ''css vue pr merge'') None =
     \<lparr>cli = Copilot, category = Git, rationale = ''Copilot for GitHub-integrated workflows'',
      confidence = 4138442900826943 / 18014398509481984\<rparr>"
proof -
  have v: "RULES ! 1 = ruleVisual" and c: "RULES ! 3 = ruleGit" by (simp_all add: RULES_def)
  have "firstGreatest (decimalWeight cssVuePrMerge) RULES = Some (RULES ! 1)"
    by (rule firstGreatest_RULES [OF cssVuePrMerge_decimal]) (simp_all add: all_less_8)
  then have gd: "firstGreatest (decimalWeight cssVuePrMerge) RULES = Some ruleVisual"
    by (simp only: v)
  have three: "(\<forall>j<3. P j) \<longleftrightarrow> P 0 \<and> P 1 \<and> P (2::nat)" for P
  proof -
    have "j < 3 \<longleftrightarrow> j = 0 \<or> j = 1 \<or> j = 2" for j :: nat by arith
    then show ?thesis by auto
  qed
  have "firstGreatest (matchedWeight cssVuePrMerge) RULES = Some (RULES ! 3)"
    by (rule firstGreatest_RULES [OF cssVuePrMerge_sums]) (simp_all add: all_less_8 three)
  then have gm: "firstGreatest (matchedWeight cssVuePrMerge) RULES = Some ruleGit"
    by (simp only: c)
  have m: "matchedWeight cssVuePrMerge ruleGit = 1914029841632461 / 1125899906842624"
    by (simp add: matchedWeight_sum cssVuePrMerge_git sum_pr_merge)
  have t: "totalWeight cssVuePrMerge ruleGit = 8331659310635417 / 1125899906842624"
    by (simp add: totalWeight_sum ruleGit_def sum_git_all)
  have p: "rule_cli ruleGit = Copilot" "rule_category ruleGit = Git"
    "rule_rationale ruleGit = ''Copilot for GitHub-integrated workflows''"
    by (simp_all add: ruleGit_def)
  have "routeTask cssVuePrMerge None = resultOf cssVuePrMerge ruleGit"
    by (simp add: routeTask_first_greatest gm)
  then have "routeTask cssVuePrMerge None =
     \<lparr>cli = Copilot, category = Git, rationale = ''Copilot for GitHub-integrated workflows'',
      confidence = 4138442900826943 / 18014398509481984\<rparr>"
    by (simp add: resultOf_def m t p quotient_pr_merge)
  then have r: "routeTask (asc ''css vue pr merge'') None =
     \<lparr>cli = Copilot, category = Git, rationale = ''Copilot for GitHub-integrated workflows'',
      confidence = 4138442900826943 / 18014398509481984\<rparr>"
    by (simp only: cssVuePrMerge_def)
  show ?thesis
    using cssVuePrMerge_decimal gd cssVuePrMerge_sums gm r by (simp only: simp_thms)
qed

section \<open>Properties of the continuation engine\<close>

lemmas prims = setState_def emit_def clearTimeout_def statesDelete_def

lemma wf_init: "wf initEngine"
  by (simp add: wf_def initEngine_def)

lemma wf_heapD: "wf e \<Longrightarrow> heap e a = Some st \<Longrightarrow> a < nextAddr e"
  by (simp add: wf_def)

lemma wf_statesD:
  "wf e \<Longrightarrow> states e p = Some a \<Longrightarrow> \<exists>st. heap e a = Some st \<and> ptyId st = p \<and> status st = Running"
  by (simp add: wf_def)

lemma wf_runningD: "wf e \<Longrightarrow> heap e a = Some st \<Longrightarrow> status st = Running \<Longrightarrow> states e (ptyId st) = Some a"
  by (simp add: wf_def)

lemma wf_timersD:
  "wf e \<Longrightarrow> timers e t = Some (a, d) \<Longrightarrow>
   t < nextTimer e \<and> (\<exists>st. heap e a = Some st \<and> status st = Running \<and> timer st = Some t \<and> d = quietDelayMs st)"
  by (simp add: wf_def)

lemma wfI:
  assumes "\<And>a st. heap e a = Some st \<Longrightarrow> a < nextAddr e"
    and "\<And>p a. states e p = Some a \<Longrightarrow>
           \<exists>st. heap e a = Some st \<and> ptyId st = p \<and> status st = Running"
    and "\<And>a st. heap e a = Some st \<Longrightarrow> status st = Running \<Longrightarrow> states e (ptyId st) = Some a"
    and "\<And>t a d. timers e t = Some (a, d) \<Longrightarrow>
           t < nextTimer e \<and>
           (\<exists>st. heap e a = Some st \<and> status st = Running \<and> timer st = Some t \<and> d = quietDelayMs st)"
  shows "wf e"
  using assms unfolding wf_def by blast

text \<open>Only the heap, the map, the timeouts and the two counters matter.\<close>

lemma wf_same:
  assumes "wf e" "heap e' = heap e" "states e' = states e" "timers e' = timers e"
    "nextAddr e' = nextAddr e" "nextTimer e' = nextTimer e"
  shows "wf e'"
  using assms by (simp add: wf_def)

text \<open>A running object ends: it leaves the map, and none of its timeouts stays pending.\<close>

lemma wf_kill:
  assumes wf: "wf e" and a: "heap e a = Some st" and run: "status st = Running" and s: "s \<noteq> Running"
    and h: "heap e' = (heap e)(a \<mapsto> st\<lparr>status := s\<rparr>)"
    and m: "states e' = (states e)(ptyId st := None)"
    and tm: "\<forall>t x. timers e' t = Some x \<longrightarrow> timers e t = Some x \<and> fst x \<noteq> a"
    and n: "nextAddr e' = nextAddr e" "nextTimer e' = nextTimer e"
  shows "wf e'"
proof (rule wfI)
  fix b st' assume "heap e' b = Some st'"
  then show "b < nextAddr e'"
    using wf_heapD [OF wf] a h n by (auto split: if_splits)
next
  fix p b assume pb: "states e' p = Some b"
  then have p: "p \<noteq> ptyId st" and sb: "states e p = Some b" using m by (auto split: if_splits)
  from wf_statesD [OF wf sb] obtain st' where st': "heap e b = Some st'" "ptyId st' = p" "status st' = Running"
    by blast
  have "b \<noteq> a" using st' a p by auto
  then show "\<exists>st. heap e' b = Some st \<and> ptyId st = p \<and> status st = Running"
    using st' h by simp
next
  fix b st' assume b: "heap e' b = Some st'" "status st' = Running"
  then have ba: "b \<noteq> a" using h s by (auto split: if_splits)
  then have hb: "heap e b = Some st'" using b h by simp
  have sb: "states e (ptyId st') = Some b" using wf_runningD [OF wf hb] b by simp
  have sa: "states e (ptyId st) = Some a" using wf_runningD [OF wf a run] .
  have "ptyId st' \<noteq> ptyId st" using sa sb ba by auto
  then show "states e' (ptyId st') = Some b" using sb m by simp
next
  fix t b d assume t: "timers e' t = Some (b, d)"
  then have t0: "timers e t = Some (b, d)" and ba: "b \<noteq> a" using tm by auto
  from wf_timersD [OF wf t0] ba h n
  show "t < nextTimer e' \<and>
        (\<exists>st. heap e' b = Some st \<and> status st = Running \<and> timer st = Some t \<and> d = quietDelayMs st)"
    by simp
qed

text \<open>A field of an object changes that the invariant does not read.\<close>

lemma wf_inert:
  assumes wf: "wf e" and a: "heap e a = Some st"
    and h: "heap e' = (heap e)(a \<mapsto> st')"
    and same: "ptyId st' = ptyId st" "status st' = status st" "quietDelayMs st' = quietDelayMs st"
    and tmr: "timer st' = timer st \<or> (\<forall>t d. timers e t \<noteq> Some (a, d))"
    and m: "states e' = states e" "timers e' = timers e"
    and n: "nextAddr e' = nextAddr e" "nextTimer e' = nextTimer e"
  shows "wf e'"
proof (rule wfI)
  fix b st'' assume "heap e' b = Some st''"
  then show "b < nextAddr e'"
    using wf_heapD [OF wf] a h n by (auto split: if_splits)
next
  fix p b assume pb: "states e' p = Some b"
  then have sb: "states e p = Some b" using m by simp
  from wf_statesD [OF wf sb] obtain s0 where s0: "heap e b = Some s0" "ptyId s0 = p" "status s0 = Running"
    by blast
  show "\<exists>st. heap e' b = Some st \<and> ptyId st = p \<and> status st = Running"
    using s0 a h same by (cases "b = a") auto
next
  fix b st'' assume b: "heap e' b = Some st''" "status st'' = Running"
  show "states e' (ptyId st'') = Some b"
  proof (cases "b = a")
    case True
    then have "st'' = st'" using b h by simp
    then show ?thesis using wf_runningD [OF wf a] b same m True by simp
  next
    case False
    then have "heap e b = Some st''" using b h by simp
    then show ?thesis using wf_runningD [OF wf] b m by simp
  qed
next
  fix t b d assume t: "timers e' t = Some (b, d)"
  then have t0: "timers e t = Some (b, d)" using m by simp
  from wf_timersD [OF wf t0] obtain s0 where s0: "t < nextTimer e" "heap e b = Some s0"
    "status s0 = Running" "timer s0 = Some t" "d = quietDelayMs s0" by blast
  show "t < nextTimer e' \<and>
        (\<exists>st. heap e' b = Some st \<and> status st = Running \<and> timer st = Some t \<and> d = quietDelayMs st)"
  proof (cases "b = a")
    case True
    then have "timer st' = timer st" using tmr t0 by auto
    then show ?thesis using s0 a h same n True by simp
  next
    case False
    then show ?thesis using s0 h n by simp
  qed
qed

text \<open>A timeout stops being pending (it fired or was cleared).\<close>

lemma wf_disarm:
  assumes wf: "wf e"
    and h: "heap e' = heap e" and m: "states e' = states e"
    and tm: "timers e' = (timers e)(t := None)"
    and n: "nextAddr e' = nextAddr e" "nextTimer e' = nextTimer e"
  shows "wf e'"
  using wf unfolding wf_def h m tm n by (auto split: if_splits)

lemma no_other_timer:
  assumes wf: "wf e" and a: "heap e a = Some st" and t: "timer st = Some t"
  shows "\<forall>t' d. ((timers e)(t := None)) t' \<noteq> Some (a, d)"
proof (intro allI notI)
  fix t' d assume x: "((timers e)(t := None)) t' = Some (a, d)"
  then have "t' \<noteq> t" and "timers e t' = Some (a, d)" by (auto split: if_splits)
  with wf_timersD [OF wf] a t show False by fastforce
qed

lemma no_timer_without_handle:
  assumes wf: "wf e" and a: "heap e a = Some st" and t: "timer st = None"
  shows "\<forall>t' d. timers e t' \<noteq> Some (a, d)"
proof (intro allI notI)
  fix t' d assume "timers e t' = Some (a, d)"
  with wf_timersD [OF wf] a t show False by fastforce
qed

text \<open>A running object without a pending timeout arms one.\<close>

lemma wf_arm:
  assumes wf: "wf e" and a: "heap e a = Some st" and run: "status st = Running"
    and none: "\<forall>t d. timers e t \<noteq> Some (a, d)"
    and h: "heap e' = (heap e)(a \<mapsto> st\<lparr>timer := Some (nextTimer e)\<rparr>)"
    and m: "states e' = states e"
    and tm: "timers e' = (timers e)(nextTimer e \<mapsto> (a, quietDelayMs st))"
    and n: "nextAddr e' = nextAddr e" "nextTimer e' = Suc (nextTimer e)"
  shows "wf e'"
proof (rule wfI)
  fix b st'' assume "heap e' b = Some st''"
  then show "b < nextAddr e'"
    using wf_heapD [OF wf] a h n by (auto split: if_splits)
next
  fix p b assume pb: "states e' p = Some b"
  then have sb: "states e p = Some b" using m by simp
  from wf_statesD [OF wf sb] obtain s0 where s0: "heap e b = Some s0" "ptyId s0 = p" "status s0 = Running"
    by blast
  show "\<exists>st. heap e' b = Some st \<and> ptyId st = p \<and> status st = Running"
    using s0 a h by (cases "b = a") auto
next
  fix b st'' assume b: "heap e' b = Some st''" "status st'' = Running"
  show "states e' (ptyId st'') = Some b"
  proof (cases "b = a")
    case True
    then have "st'' = st\<lparr>timer := Some (nextTimer e)\<rparr>" using b h by simp
    then show ?thesis using wf_runningD [OF wf a run] m True by simp
  next
    case False
    then have "heap e b = Some st''" using b h by simp
    then show ?thesis using wf_runningD [OF wf] b m by simp
  qed
next
  fix t b d assume t: "timers e' t = Some (b, d)"
  show "t < nextTimer e' \<and>
        (\<exists>st. heap e' b = Some st \<and> status st = Running \<and> timer st = Some t \<and> d = quietDelayMs st)"
  proof (cases "t = nextTimer e")
    case True
    then show ?thesis using t tm h n run by simp
  next
    case False
    then have t0: "timers e t = Some (b, d)" using t tm by simp
    then have "b \<noteq> a" using none by auto
    then show ?thesis using wf_timersD [OF wf t0] h n by auto
  qed
qed

text \<open>A new object is made for a \<open>ptyId\<close> that has none.\<close>

lemma wf_alloc:
  assumes wf: "wf e" and free: "states e p = None"
    and st: "ptyId st = p" "status st = Running"
    and h: "heap e' = (heap e)(nextAddr e \<mapsto> st)"
    and m: "states e' = (states e)(p \<mapsto> nextAddr e)"
    and tm: "timers e' = timers e"
    and n: "nextAddr e' = Suc (nextAddr e)" "nextTimer e' = nextTimer e"
  shows "wf e'"
proof (rule wfI)
  fix b st'' assume "heap e' b = Some st''"
  then show "b < nextAddr e'"
    using wf_heapD [OF wf, of b] h n by (auto split: if_splits simp: less_Suc_eq)
next
  have fresh: "heap e (nextAddr e) = None"
    using wf_heapD [OF wf, of "nextAddr e"] by (cases "heap e (nextAddr e)") auto
  fix q b assume pb: "states e' q = Some b"
  show "\<exists>st. heap e' b = Some st \<and> ptyId st = q \<and> status st = Running"
  proof (cases "q = p")
    case True
    then show ?thesis using pb m h st by simp
  next
    case False
    then have sb: "states e q = Some b" using pb m by simp
    from wf_statesD [OF wf sb] obtain s0 where s0: "heap e b = Some s0" "ptyId s0 = q" "status s0 = Running"
      by blast
    then have "b \<noteq> nextAddr e" using fresh by auto
    then show ?thesis using s0 h by simp
  qed
next
  fix b st'' assume b: "heap e' b = Some st''" "status st'' = Running"
  show "states e' (ptyId st'') = Some b"
  proof (cases "b = nextAddr e")
    case True
    then show ?thesis using b h m st by simp
  next
    case False
    then have hb: "heap e b = Some st''" using b h by simp
    have sb: "states e (ptyId st'') = Some b" using wf_runningD [OF wf hb] b by simp
    then have "ptyId st'' \<noteq> p" using free by auto
    then show ?thesis using sb m by simp
  qed
next
  fix t b d assume t: "timers e' t = Some (b, d)"
  then have t0: "timers e t = Some (b, d)" using tm by simp
  from wf_timersD [OF wf t0] obtain s0 where s0: "t < nextTimer e" "heap e b = Some s0"
    "status s0 = Running" "timer s0 = Some t" "d = quietDelayMs s0" by blast
  have "b \<noteq> nextAddr e" using wf_heapD [OF wf s0(2)] by simp
  then show "t < nextTimer e' \<and>
        (\<exists>st. heap e' b = Some st \<and> status st = Running \<and> timer st = Some t \<and> d = quietDelayMs st)"
    using s0 h n by simp
qed

subsection \<open>The operations keep the engine well-formed\<close>

lemma stop_unmapped: "states e p = None \<Longrightarrow> stopContinuation p e = e"
  by (simp add: stopContinuation_def)

lemma stop_fields:
  assumes "states e p = Some a" "heap e a = Some st"
  shows "heap (stopContinuation p e) = (heap e)(a \<mapsto> st\<lparr>status := Cancelled\<rparr>)"
    and "states (stopContinuation p e) = (states e)(p := None)"
    and "timers (stopContinuation p e) =
           (case timer st of Some t \<Rightarrow> (timers e)(t := None) | None \<Rightarrow> timers e)"
    and "nextAddr (stopContinuation p e) = nextAddr e"
    and "nextTimer (stopContinuation p e) = nextTimer e"
    and "destroyed (stopContinuation p e) = destroyed e"
    and "trace (stopContinuation p e) =
           trace e @ map (Pair a) (StatusSet Cancelled
             # (if onCancelled (hooks st) then [HookCancelled p] else []))"
  using assms by (simp_all add: stopContinuation_def prims split: option.splits)

lemma wf_stop:
  assumes wf: "wf e"
  shows "wf (stopContinuation p e)"
proof (cases "states e p")
  case None
  then show ?thesis using wf by (simp add: stop_unmapped)
next
  case (Some a)
  from wf_statesD [OF wf Some] obtain st where st: "heap e a = Some st" "ptyId st = p" "status st = Running"
    by blast
  note f = stop_fields [OF Some st(1)]
  have tm: "\<forall>t x. timers (stopContinuation p e) t = Some x \<longrightarrow> timers e t = Some x \<and> fst x \<noteq> a"
  proof (cases "timer st")
    case None
    then show ?thesis
      using no_timer_without_handle [OF wf st(1)] by (auto simp: f(3))
  next
    case (Some t)
    then show ?thesis
      using no_other_timer [OF wf st(1) Some] by (auto simp: f(3) split: if_splits)
  qed
  show ?thesis
    by (rule wf_kill [OF wf st(1) st(3), of Cancelled]) (simp_all add: f st tm)
qed

lemma sched_fields:
  assumes "heap e a = Some st" "status st = Running"
  shows "heap (scheduleCheck a e) = (heap e)(a \<mapsto> st\<lparr>timer := Some (nextTimer e)\<rparr>)"
    and "states (scheduleCheck a e) = states e"
    and "timers (scheduleCheck a e) = (timers e)(nextTimer e \<mapsto> (a, quietDelayMs st))"
    and "nextAddr (scheduleCheck a e) = nextAddr e"
    and "nextTimer (scheduleCheck a e) = Suc (nextTimer e)"
    and "destroyed (scheduleCheck a e) = destroyed e"
    and "trace (scheduleCheck a e) = trace e"
  using assms by (simp_all add: scheduleCheck_def prims)

lemma sched_not_running:
  "heap e a = Some st \<Longrightarrow> status st \<noteq> Running \<Longrightarrow> scheduleCheck a e = e"
  by (simp add: scheduleCheck_def)

lemma sched_no_object: "heap e a = None \<Longrightarrow> scheduleCheck a e = e"
  by (simp add: scheduleCheck_def)

lemma wf_sched:
  assumes wf: "wf e" and none: "\<forall>t d. timers e t \<noteq> Some (a, d)"
  shows "wf (scheduleCheck a e)"
proof (cases "heap e a")
  case None
  then show ?thesis using wf by (simp add: sched_no_object)
next
  case (Some st)
  show ?thesis
  proof (cases "status st = Running")
    case True
    show ?thesis
      by (rule wf_arm [OF wf Some True none]) (simp_all add: sched_fields [OF Some True])
  next
    case False
    then show ?thesis using wf Some by (simp add: sched_not_running)
  qed
qed

text \<open>The two places where a run ends on its own: \<open>done\<close> and \<open>max_reached\<close>.\<close>

lemma finish_fields:
  assumes "heap e a = Some st"
  shows "heap (finish a st s evs e) = (heap e)(a \<mapsto> st\<lparr>status := s\<rparr>)"
    and "states (finish a st s evs e) = (states e)(ptyId st := None)"
    and "timers (finish a st s evs e) = timers e"
    and "nextAddr (finish a st s evs e) = nextAddr e"
    and "nextTimer (finish a st s evs e) = nextTimer e"
    and "destroyed (finish a st s evs e) = destroyed e"
    and "trace (finish a st s evs e) = trace e @ map (Pair a) evs"
  using assms by (simp_all add: finish_def prims)

lemma wf_finish:
  assumes wf: "wf e" and a: "heap e a = Some st" and run: "status st = Running"
    and s: "s \<noteq> Running" and none: "\<forall>t d. timers e t \<noteq> Some (a, d)"
  shows "wf (finish a st s evs e)"
  by (rule wf_kill [OF wf a run s]) (use none in \<open>auto simp: finish_fields [OF a]\<close>)

text \<open>The step of \<open>runIteration\<close> that counts and reports an iteration, before the timer is armed.\<close>

lemma iterate_fields:
  assumes "heap e a = Some st"
  shows "heap (iterate a st e) =
           (heap e)(a \<mapsto> st\<lparr>currentIteration := Suc (currentIteration st), outputBuffer := []\<rparr>)"
    and "states (iterate a st e) = states e"
    and "timers (iterate a st e) = timers e"
    and "nextAddr (iterate a st e) = nextAddr e"
    and "nextTimer (iterate a st e) = nextTimer e"
    and "destroyed (iterate a st e) = destroyed e"
    and "trace (iterate a st e) =
           trace e @ map (Pair a)
             ((if onIteration (hooks st)
               then [HookIteration (ptyId st) (Suc (currentIteration st)) (maxIterations st)]
               else [])
              @ [SendIteration (ptyId st) (Suc (currentIteration st)) (maxIterations st),
                 OnContinue (ptyId st)])"
  using assms by (simp_all add: iterate_def prims)

lemma wf_iterate:
  assumes wf: "wf e" and a: "heap e a = Some st"
  shows "wf (iterate a st e)"
  by (rule wf_inert [OF wf a, where st' = "st\<lparr>currentIteration := Suc (currentIteration st), outputBuffer := []\<rparr>"])
    (simp_all add: iterate_fields [OF a])

text \<open>\<open>runIteration\<close> and \<open>checkAndContinue\<close>, branch by branch.\<close>

lemma runIteration_cases:
  assumes "heap e a = Some st" "status st = Running"
  shows "runIteration a e =
     (if window st \<in> destroyed e then stopContinuation (ptyId st) e
      else if maxIterations st \<le> of_nat (currentIteration st) then
        finish a st MaxReached
          (StatusSet MaxReached
           # (if onMaxReached (hooks st)
              then [HookMaxReached (ptyId st) (currentIteration st) (goal st)] else [])
           @ [SendMaxReached (ptyId st) (currentIteration st) (goal st)]) e
      else scheduleCheck a (iterate a st e))"
  using assms by (simp add: runIteration_def)

lemma checkAndContinue_cases:
  assumes "heap e a = Some st" "status st = Running"
  shows "checkAndContinue a e =
     (if window st \<in> destroyed e then stopContinuation (ptyId st) e
      else if doneSignalled (outputBuffer st) then
        finish a st Done
          (StatusSet Done
           # (if onDone (hooks st) then [HookDone (ptyId st) (currentIteration st)] else [])
           @ [SendDone (ptyId st) (currentIteration st)]) e
      else if requirePrompt st \<and> \<not> isAtPrompt (outputBuffer st) then scheduleCheck a e
      else runIteration a e)"
  using assms by (simp add: checkAndContinue_def)

lemma runIteration_idle:
  "heap e a = None \<or> (\<exists>st. heap e a = Some st \<and> status st \<noteq> Running) \<Longrightarrow> runIteration a e = e"
  by (auto simp: runIteration_def)

lemma checkAndContinue_idle:
  "heap e a = None \<or> (\<exists>st. heap e a = Some st \<and> status st \<noteq> Running) \<Longrightarrow> checkAndContinue a e = e"
  by (auto simp: checkAndContinue_def)

lemma wf_runIteration:
  assumes wf: "wf e" and none: "\<forall>t d. timers e t \<noteq> Some (a, d)"
  shows "wf (runIteration a e)"
proof (cases "\<exists>st. heap e a = Some st \<and> status st = Running")
  case False
  then have "runIteration a e = e" by (intro runIteration_idle) (cases "heap e a"; auto)
  then show ?thesis using wf by simp
next
  case True
  then obtain st where st: "heap e a = Some st" "status st = Running" by blast
  have "wf (scheduleCheck a (iterate a st e))"
    by (rule wf_sched [OF wf_iterate [OF wf st(1)]]) (simp add: iterate_fields [OF st(1)] none)
  then show ?thesis
    using wf_stop [OF wf] wf_finish [OF wf st _ none]
    by (simp add: runIteration_cases [OF st])
qed

lemma wf_checkAndContinue:
  assumes wf: "wf e" and none: "\<forall>t d. timers e t \<noteq> Some (a, d)"
  shows "wf (checkAndContinue a e)"
proof (cases "\<exists>st. heap e a = Some st \<and> status st = Running")
  case False
  then have "checkAndContinue a e = e" by (intro checkAndContinue_idle) (cases "heap e a"; auto)
  then show ?thesis using wf by simp
next
  case True
  then obtain st where st: "heap e a = Some st" "status st = Running" by blast
  show ?thesis
    using wf_stop [OF wf] wf_finish [OF wf st _ none] wf_sched [OF wf none]
      wf_runIteration [OF wf none]
    by (simp add: checkAndContinue_cases [OF st])
qed

text \<open>The state in which the callback of a timeout finds the engine.\<close>

lemma fired_fields:
  assumes "heap e a = Some st"
  shows "heap (fired t a e) = (heap e)(a \<mapsto> st\<lparr>timer := None\<rparr>)"
    and "states (fired t a e) = states e"
    and "timers (fired t a e) = (timers e)(t := None)"
    and "nextAddr (fired t a e) = nextAddr e"
    and "nextTimer (fired t a e) = nextTimer e"
    and "destroyed (fired t a e) = destroyed e"
    and "trace (fired t a e) = trace e"
  using assms by (simp_all add: fired_def prims)

lemma fireTimer_cases:
  "fireTimer t e = (case timers e t of None \<Rightarrow> e | Some (a, d) \<Rightarrow> checkAndContinue a (fired t a e))"
  by (simp add: fireTimer_def split: option.splits)

lemma wf_fired:
  assumes wf: "wf e" and a: "heap e a = Some st" and t: "timer st = Some t"
  shows "wf (fired t a e)" and "\<forall>t' d. timers (fired t a e) t' \<noteq> Some (a, d)"
proof -
  let ?e1 = "clearTimeout t e"
  have wf1: "wf ?e1" by (rule wf_disarm [OF wf, of _ t]) (simp_all add: clearTimeout_def)
  have none1: "\<forall>t' d. timers ?e1 t' \<noteq> Some (a, d)"
    using no_other_timer [OF wf a t] by (simp add: clearTimeout_def)
  have a1: "heap ?e1 a = Some st" using a by (simp add: clearTimeout_def)
  show "wf (fired t a e)"
    by (rule wf_inert [OF wf1 a1, where st' = "st\<lparr>timer := None\<rparr>"])
      (use none1 in \<open>simp_all add: fired_fields [OF a] clearTimeout_def\<close>)
  show "\<forall>t' d. timers (fired t a e) t' \<noteq> Some (a, d)"
    using none1 by (simp add: fired_fields [OF a] clearTimeout_def)
qed

lemma wf_fireTimer:
  assumes wf: "wf e"
  shows "wf (fireTimer t e)"
proof (cases "timers e t")
  case None
  then show ?thesis using wf by (simp add: fireTimer_cases)
next
  case (Some x)
  obtain a d where x: "x = (a, d)" by (cases x)
  from wf_timersD [OF wf Some [unfolded x]] obtain st where
    st: "heap e a = Some st" "status st = Running" "timer st = Some t" by blast
  show ?thesis
    using wf_checkAndContinue [OF wf_fired [OF wf st(1) st(3)]]
    by (simp add: fireTimer_cases Some x)
qed

text \<open>\<open>startContinuation\<close>: the object it makes, and the engine just before the first step.\<close>

lemma startContinuation_cases:
  "startContinuation p g m w h opts e =
     (let e2 = allocated p (newState p g m w h opts) (stopContinuation p e)
      in if kickOff opts then runIteration (nextAddr (stopContinuation p e)) e2
         else scheduleCheck (nextAddr (stopContinuation p e)) e2)"
  by (simp add: startContinuation_def)

lemma stop_clears_map: "states (stopContinuation p e) p = None"
  by (auto simp: stopContinuation_def prims split: option.splits)

lemma stop_nextAddr: "nextAddr (stopContinuation p e) = nextAddr e"
  by (auto simp: stopContinuation_def prims split: option.splits)

lemma wf_allocated:
  assumes wf: "wf e" and free: "states e p = None" and st: "ptyId st = p" "status st = Running"
  shows "wf (allocated p st e)" and "\<forall>t d. timers (allocated p st e) t \<noteq> Some (nextAddr e, d)"
proof -
  show "wf (allocated p st e)"
    by (rule wf_alloc [OF wf free st]) (simp_all add: allocated_def)
  show "\<forall>t d. timers (allocated p st e) t \<noteq> Some (nextAddr e, d)"
  proof (intro allI notI)
    fix t d assume "timers (allocated p st e) t = Some (nextAddr e, d)"
    then have "timers e t = Some (nextAddr e, d)" by (simp add: allocated_def)
    from wf_timersD [OF wf this] obtain s0 where "heap e (nextAddr e) = Some s0" by blast
    from wf_heapD [OF wf this] show False by simp
  qed
qed

lemma wf_start:
  assumes wf: "wf e"
  shows "wf (startContinuation p g m w h opts e)"
proof -
  let ?e1 = "stopContinuation p e"
  let ?st = "newState p g m w h opts"
  have wf1: "wf ?e1" by (rule wf_stop [OF wf])
  have st: "ptyId ?st = p" "status ?st = Running" by (simp_all add: newState_def)
  note al = wf_allocated [OF wf1 stop_clears_map st]
  show ?thesis
    using wf_runIteration [OF al] wf_sched [OF al]
    by (simp add: startContinuation_cases Let_def)
qed

text \<open>\<open>onPtyData\<close> on a running state: buffer, then timer.\<close>

lemma onPtyData_cases:
  "onPtyData p data e =
     (case states e p of
        None \<Rightarrow> e
      | Some a \<Rightarrow>
          (case heap e a of
             None \<Rightarrow> e
           | Some st \<Rightarrow>
               if status st \<noteq> Running then e
               else scheduleCheck a (disarmed a st (buffered a data e))))"
  by (simp add: onPtyData_def)

lemma buffered_fields:
  assumes "heap e a = Some st"
  shows "heap (buffered a data e) = (heap e)(a \<mapsto> st\<lparr>outputBuffer := trimBuffer (outputBuffer st @ data)\<rparr>)"
    and "states (buffered a data e) = states e"
    and "timers (buffered a data e) = timers e"
    and "nextAddr (buffered a data e) = nextAddr e"
    and "nextTimer (buffered a data e) = nextTimer e"
    and "destroyed (buffered a data e) = destroyed e"
    and "trace (buffered a data e) = trace e"
  using assms by (simp_all add: buffered_def prims)

lemma disarmed_fields:
  assumes "heap e a = Some st'"
  shows "heap (disarmed a st e) = (heap e)(a \<mapsto> st'\<lparr>timer := None\<rparr>)"
    and "states (disarmed a st e) = states e"
    and "timers (disarmed a st e) = (case timer st of Some t \<Rightarrow> (timers e)(t := None) | None \<Rightarrow> timers e)"
    and "nextAddr (disarmed a st e) = nextAddr e"
    and "nextTimer (disarmed a st e) = nextTimer e"
    and "destroyed (disarmed a st e) = destroyed e"
    and "trace (disarmed a st e) = trace e"
  using assms by (simp_all add: disarmed_def prims split: option.splits)

lemma wf_buffered:
  assumes wf: "wf e" and a: "heap e a = Some st"
  shows "wf (buffered a data e)"
  by (rule wf_inert [OF wf a, where st' = "st\<lparr>outputBuffer := trimBuffer (outputBuffer st @ data)\<rparr>"])
    (simp_all add: buffered_fields [OF a])

lemma wf_disarmed:
  assumes wf: "wf e" and a: "heap e a = Some st'" and tm: "timer st' = timer st"
  shows "wf (disarmed a st e)" and "\<forall>t' d. timers (disarmed a st e) t' \<noteq> Some (a, d)"
proof -
  let ?e1 = "(case timer st of Some t \<Rightarrow> clearTimeout t | None \<Rightarrow> id) e"
  have wf1: "wf ?e1"
  proof (cases "timer st")
    case None
    then show ?thesis using wf by simp
  next
    case (Some t)
    have "wf (clearTimeout t e)" by (rule wf_disarm [OF wf, of _ t]) (simp_all add: clearTimeout_def)
    then show ?thesis using Some by simp
  qed
  have none1: "\<forall>t' d. timers ?e1 t' \<noteq> Some (a, d)"
  proof (cases "timer st")
    case None
    then show ?thesis using no_timer_without_handle [OF wf a] tm by simp
  next
    case (Some t)
    then show ?thesis using no_other_timer [OF wf a, of t] tm by (simp add: clearTimeout_def)
  qed
  have a1: "heap ?e1 a = Some st'" using a by (cases "timer st") (simp_all add: clearTimeout_def)
  have eq: "disarmed a st e = setState a (\<lambda>s. s\<lparr>timer := None\<rparr>) ?e1" by (simp add: disarmed_def)
  have fields: "heap ?e1 = heap e" "states ?e1 = states e" "nextAddr ?e1 = nextAddr e" "nextTimer ?e1 = nextTimer e"
    "timers ?e1 = (case timer st of Some t \<Rightarrow> (timers e)(t := None) | None \<Rightarrow> timers e)"
    by (cases "timer st"; simp add: clearTimeout_def)+
  show "wf (disarmed a st e)"
    by (rule wf_inert [OF wf1 a1, where st' = "st'\<lparr>timer := None\<rparr>"])
      (use none1 in \<open>simp_all add: disarmed_fields [OF a] fields\<close>)
  show "\<forall>t' d. timers (disarmed a st e) t' \<noteq> Some (a, d)"
    using none1 by (simp add: disarmed_fields [OF a] fields)
qed

lemma wf_onPtyData:
  assumes wf: "wf e"
  shows "wf (onPtyData p data e)"
proof (cases "states e p")
  case None
  then show ?thesis using wf by (simp add: onPtyData_cases)
next
  case (Some a)
  from wf_statesD [OF wf Some] obtain st where st: "heap e a = Some st" "ptyId st = p" "status st = Running"
    by blast
  have a1: "heap (buffered a data e) a = Some (st\<lparr>outputBuffer := trimBuffer (outputBuffer st @ data)\<rparr>)"
    by (simp add: buffered_fields [OF st(1)])
  note d = wf_disarmed [OF wf_buffered [OF wf st(1)] a1, of st]
  show ?thesis
    using wf_sched [OF d(1) d(2)] by (simp add: onPtyData_cases Some st)
qed

lemma wf_step: "wf e \<Longrightarrow> wf (step e act)"
proof (cases act)
  case (DestroyWindow w)
  assume "wf e"
  then show ?thesis unfolding DestroyWindow by (simp add: wf_def)
qed (simp_all add: wf_start wf_stop wf_onPtyData wf_fireTimer)

lemma run_snoc: "run (acts @ [act]) = step (run acts) act"
  by (simp add: run_def)

lemma wf_run: "wf (run acts)"
proof (induction acts rule: rev_induct)
  case Nil
  show ?case by (simp add: run_def wf_init)
next
  case (snoc act acts)
  then show ?case by (simp add: run_snoc wf_step)
qed

subsection \<open>The trace invariant\<close>

lemma iterationsOf_append [simp]:
  "iterationsOf a (xs @ ys) = iterationsOf a xs @ iterationsOf a ys"
  by (simp add: iterationsOf_def)

lemma iterationsOf_Nil [simp]: "iterationsOf a [] = []"
  by (simp add: iterationsOf_def)

lemma iterationsOf_Cons:
  "iterationsOf a ((b, ev) # xs) =
     (case ev of SendIteration p i m \<Rightarrow> if b = a then [i] else [] | _ \<Rightarrow> []) @ iterationsOf a xs"
  by (simp add: iterationsOf_def split: event.splits)

lemma iterationsOf_other: "b \<noteq> a \<Longrightarrow> iterationsOf a (map (Pair b) evs) = []"
  by (induction evs) (auto simp: iterationsOf_Cons split: event.splits)

lemma iterationsOf_empty_iff:
  "iterationsOf a xs = [] \<longleftrightarrow> (\<forall>p i m. (a, SendIteration p i m) \<notin> set xs)"
proof (induction xs)
  case Nil
  show ?case by simp
next
  case (Cons x xs)
  obtain b ev where x: "x = (b, ev)" by (cases x)
  show ?case using Cons by (cases ev) (auto simp: x iterationsOf_Cons)
qed

lemma iterationsOf_mem:
  "i \<in> set (iterationsOf a xs) \<longleftrightarrow> (\<exists>p m. (a, SendIteration p i m) \<in> set xs)"
proof (induction xs)
  case Nil
  show ?case by simp
next
  case (Cons x xs)
  obtain b ev where x: "x = (b, ev)" by (cases x)
  show ?case using Cons by (cases ev) (auto simp: x iterationsOf_Cons)
qed

lemma continueFollows_append:
  "continueFollows xs \<Longrightarrow> continueFollows ys \<Longrightarrow> continueFollows (xs @ ys)"
proof (induction xs)
  case Nil
  then show ?case by simp
next
  case (Cons x xs)
  then show ?case by (cases xs) (auto split: event.splits)
qed

lemma quietAfterEnd_append:
  "quietAfterEnd (xs @ ys) \<longleftrightarrow>
     quietAfterEnd xs \<and> quietAfterEnd ys \<and>
     (\<forall>x \<in> set xs. isTerminal (snd x) \<longrightarrow> iterationsOf (fst x) ys = [])"
  by (induction xs) auto

lemma tinvI:
  assumes "\<And>b ev. (b, ev) \<in> set (trace e) \<Longrightarrow> b < nextAddr e"
    and "\<And>a st. heap e a = Some st \<Longrightarrow> iterationsOf a (trace e) = [1..<Suc (currentIteration st)]"
    and "\<And>a p i m. (a, SendIteration p i m) \<in> set (trace e) \<Longrightarrow>
           \<exists>st. heap e a = Some st \<and> p = ptyId st \<and> m = maxIterations st \<and> of_nat i < m + 1"
    and "\<And>a ev. (a, ev) \<in> set (trace e) \<Longrightarrow> isTerminal ev \<Longrightarrow>
           \<exists>st. heap e a = Some st \<and> status st \<noteq> Running"
    and "continueFollows (trace e)" and "quietAfterEnd (trace e)"
  shows "tinv e"
  using assms unfolding tinv_def by blast

lemma tinv_tagD: "tinv e \<Longrightarrow> (b, ev) \<in> set (trace e) \<Longrightarrow> b < nextAddr e"
  unfolding tinv_def by blast

lemma tinv_iterD:
  "tinv e \<Longrightarrow> heap e a = Some st \<Longrightarrow> iterationsOf a (trace e) = [1..<Suc (currentIteration st)]"
  unfolding tinv_def by blast

lemma tinv_sentD:
  "tinv e \<Longrightarrow> (a, SendIteration p i m) \<in> set (trace e) \<Longrightarrow>
   \<exists>st. heap e a = Some st \<and> p = ptyId st \<and> m = maxIterations st \<and> of_nat i < m + 1"
  unfolding tinv_def by blast

lemma tinv_endD:
  "tinv e \<Longrightarrow> (a, ev) \<in> set (trace e) \<Longrightarrow> isTerminal ev \<Longrightarrow>
   \<exists>st. heap e a = Some st \<and> status st \<noteq> Running"
  unfolding tinv_def by blast

lemma tinv_followsD: "tinv e \<Longrightarrow> continueFollows (trace e)"
  unfolding tinv_def by blast

lemma tinv_quietD: "tinv e \<Longrightarrow> quietAfterEnd (trace e)"
  unfolding tinv_def by blast

lemma tinv_init: "tinv initEngine"
  by (simp add: tinv_def initEngine_def)

text \<open>A change of an object that leaves its count, status, \<open>ptyId\<close> and cap alone.\<close>

lemma tinv_inert:
  assumes ti: "tinv e" and a: "heap e a = Some st"
    and h: "heap e' = (heap e)(a \<mapsto> st')"
    and same: "currentIteration st' = currentIteration st" "status st' = status st"
      "ptyId st' = ptyId st" "maxIterations st' = maxIterations st"
    and n: "nextAddr e' = nextAddr e" and tr: "trace e' = trace e"
  shows "tinv e'"
proof (rule tinvI)
  fix b ev assume "(b, ev) \<in> set (trace e')"
  then show "b < nextAddr e'" using tinv_tagD [OF ti] tr n by simp
next
  fix b s0 assume "heap e' b = Some s0"
  then show "iterationsOf b (trace e') = [1..<Suc (currentIteration s0)]"
    using tinv_iterD [OF ti, of b] a h same tr by (cases "b = a") auto
next
  fix b p i m assume "(b, SendIteration p i m) \<in> set (trace e')"
  then have "(b, SendIteration p i m) \<in> set (trace e)" using tr by simp
  from tinv_sentD [OF ti this] show
    "\<exists>st. heap e' b = Some st \<and> p = ptyId st \<and> m = maxIterations st \<and> of_nat i < m + 1"
    using a h same by (cases "b = a") auto
next
  fix b ev assume "(b, ev) \<in> set (trace e')" "isTerminal ev"
  then have "(b, ev) \<in> set (trace e)" using tr by simp
  from tinv_endD [OF ti this \<open>isTerminal ev\<close>] show "\<exists>st. heap e' b = Some st \<and> status st \<noteq> Running"
    using a h same by (cases "b = a") auto
next
  show "continueFollows (trace e')" using tinv_followsD [OF ti] tr by simp
  show "quietAfterEnd (trace e')" using tinv_quietD [OF ti] tr by simp
qed

lemma tinv_same:
  assumes "tinv e" "heap e' = heap e" "nextAddr e' = nextAddr e" "trace e' = trace e"
  shows "tinv e'"
  using assms by (simp add: tinv_def)

text \<open>A run ends: events that are no iteration are appended.\<close>

lemma tinv_end:
  assumes ti: "tinv e" and a: "heap e a = Some st" and alt: "a < nextAddr e" and s: "s \<noteq> Running"
    and h: "heap e' = (heap e)(a \<mapsto> st\<lparr>status := s\<rparr>)"
    and n: "nextAddr e' = nextAddr e"
    and tr: "trace e' = trace e @ map (Pair a) evs"
    and evs: "\<forall>p i m. SendIteration p i m \<notin> set evs"
  shows "tinv e'"
proof (rule tinvI)
  fix b ev assume "(b, ev) \<in> set (trace e')"
  then show "b < nextAddr e'" using tinv_tagD [OF ti] tr n alt by auto
next
  have no: "\<And>b. iterationsOf b (map (Pair a) evs) = []"
    using evs by (auto simp: iterationsOf_empty_iff)
  fix b s0 assume "heap e' b = Some s0"
  then show "iterationsOf b (trace e') = [1..<Suc (currentIteration s0)]"
    using tinv_iterD [OF ti, of b] a h tr no by (cases "b = a") auto
next
  fix b p i m assume "(b, SendIteration p i m) \<in> set (trace e')"
  then have "(b, SendIteration p i m) \<in> set (trace e)" using tr evs by auto
  from tinv_sentD [OF ti this] show
    "\<exists>st. heap e' b = Some st \<and> p = ptyId st \<and> m = maxIterations st \<and> of_nat i < m + 1"
    using a h by (cases "b = a") auto
next
  fix b ev assume b: "(b, ev) \<in> set (trace e')" "isTerminal ev"
  show "\<exists>st. heap e' b = Some st \<and> status st \<noteq> Running"
  proof (cases "b = a")
    case True
    then show ?thesis using h s by simp
  next
    case False
    then have "(b, ev) \<in> set (trace e)" using b tr by auto
    from tinv_endD [OF ti this b(2)] show ?thesis using False h by simp
  qed
next
  have no: "\<And>b. iterationsOf b (map (Pair a) evs) = []"
    using evs by (auto simp: iterationsOf_empty_iff)
  have cf: "continueFollows (map (Pair a) evs)"
    using evs by (induction evs) (auto split: event.splits)
  show "continueFollows (trace e')"
    using tinv_followsD [OF ti] cf by (simp add: tr continueFollows_append)
  have qa: "quietAfterEnd (map (Pair a) evs)"
  proof -
    have "\<And>ys. (\<forall>p i m. SendIteration p i m \<notin> set ys) \<Longrightarrow> quietAfterEnd (map (Pair a) ys)"
    proof -
      fix ys :: "event list" assume "\<forall>p i m. SendIteration p i m \<notin> set ys"
      then show "quietAfterEnd (map (Pair a) ys)"
        by (induction ys) (auto simp: iterationsOf_empty_iff)
    qed
    then show ?thesis using evs by blast
  qed
  show "quietAfterEnd (trace e')"
    using tinv_quietD [OF ti] qa no by (simp add: tr quietAfterEnd_append)
qed

text \<open>A running object below its cap counts one iteration and reports it.\<close>

lemma tinv_iter:
  assumes ti: "tinv e" and a: "heap e a = Some st" and alt: "a < nextAddr e"
    and run: "status st = Running" and cap: "of_nat (currentIteration st) < maxIterations st"
    and h: "heap e' = (heap e)(a \<mapsto> st\<lparr>currentIteration := Suc (currentIteration st), outputBuffer := []\<rparr>)"
    and n: "nextAddr e' = nextAddr e"
    and tr: "trace e' = trace e @ map (Pair a)
               (pre @ [SendIteration (ptyId st) (Suc (currentIteration st)) (maxIterations st),
                       OnContinue (ptyId st)])"
    and pre: "\<forall>ev \<in> set pre. \<exists>p i m. ev = HookIteration p i m"
  shows "tinv e'"
proof (rule tinvI)
  fix b ev assume "(b, ev) \<in> set (trace e')"
  then show "b < nextAddr e'" using tinv_tagD [OF ti] tr n alt by auto
next
  have nopre: "\<And>b. iterationsOf b (map (Pair a) pre) = []"
    using pre by (fastforce simp: iterationsOf_empty_iff)
  fix b s0 assume b: "heap e' b = Some s0"
  show "iterationsOf b (trace e') = [1..<Suc (currentIteration s0)]"
  proof (cases "b = a")
    case True
    then have "s0 = st\<lparr>currentIteration := Suc (currentIteration st), outputBuffer := []\<rparr>"
      using b h by simp
    then show ?thesis
      using tinv_iterD [OF ti a] True nopre by (simp add: tr iterationsOf_Cons)
  next
    case False
    then have "heap e b = Some s0" using b h by simp
    from tinv_iterD [OF ti this] show ?thesis
      using False nopre by (simp add: tr iterationsOf_Cons iterationsOf_other)
  qed
next
  fix b p i m assume x: "(b, SendIteration p i m) \<in> set (trace e')"
  show "\<exists>st. heap e' b = Some st \<and> p = ptyId st \<and> m = maxIterations st \<and> of_nat i < m + 1"
  proof (cases "(b, SendIteration p i m) \<in> set (trace e)")
    case True
    from tinv_sentD [OF ti this] show ?thesis using a h by (cases "b = a") auto
  next
    case False
    then have "b = a" "p = ptyId st" "i = Suc (currentIteration st)" "m = maxIterations st"
      using x tr pre by auto
    then show ?thesis using h cap by simp
  qed
next
  fix b ev assume b: "(b, ev) \<in> set (trace e')" "isTerminal ev"
  have "(b, ev) \<in> set (trace e)"
    using b tr pre by (auto simp: isTerminal_def)
  from tinv_endD [OF ti this b(2)] show "\<exists>st. heap e' b = Some st \<and> status st \<noteq> Running"
    using a h by (cases "b = a") auto
next
  have cf: "continueFollows (map (Pair a) (pre @ [SendIteration (ptyId st) (Suc (currentIteration st)) (maxIterations st),
                       OnContinue (ptyId st)]))"
    using pre by (induction pre) auto
  show "continueFollows (trace e')"
    using tinv_followsD [OF ti] cf by (simp only: tr continueFollows_append)
  have qa: "quietAfterEnd (map (Pair a) (pre @ [SendIteration (ptyId st) (Suc (currentIteration st)) (maxIterations st),
                       OnContinue (ptyId st)]))"
    using pre by (induction pre) (auto simp: isTerminal_def)
  have old: "\<forall>x \<in> set (trace e). isTerminal (snd x) \<longrightarrow>
      iterationsOf (fst x) (map (Pair a) (pre @ [SendIteration (ptyId st) (Suc (currentIteration st)) (maxIterations st),
                       OnContinue (ptyId st)])) = []"
  proof (intro ballI impI)
    fix x assume x: "x \<in> set (trace e)" "isTerminal (snd x)"
    obtain b ev where xe: "x = (b, ev)" by (cases x)
    from tinv_endD [OF ti x(1) [unfolded xe]] x(2) xe obtain s0 where "heap e b = Some s0" "status s0 \<noteq> Running"
      by auto
    then have "b \<noteq> a" using a run by auto
    then show "iterationsOf (fst x) (map (Pair a) (pre @ [SendIteration (ptyId st) (Suc (currentIteration st)) (maxIterations st),
                       OnContinue (ptyId st)])) = []"
      by (simp only: xe fst_conv iterationsOf_other)
  qed
  show "quietAfterEnd (trace e')"
    using tinv_quietD [OF ti] qa old by (simp only: tr quietAfterEnd_append)
qed

text \<open>A new object: no event carries its address yet.\<close>

lemma tinv_alloc:
  assumes ti: "tinv e" and st: "currentIteration st = 0"
    and h: "heap e' = (heap e)(nextAddr e \<mapsto> st)"
    and n: "nextAddr e' = Suc (nextAddr e)" and tr: "trace e' = trace e"
  shows "tinv e'"
proof (rule tinvI)
  fix b ev assume "(b, ev) \<in> set (trace e')"
  then show "b < nextAddr e'" using tinv_tagD [OF ti, of b ev] tr n by simp
next
  fix b s0 assume b: "heap e' b = Some s0"
  show "iterationsOf b (trace e') = [1..<Suc (currentIteration s0)]"
  proof (cases "b = nextAddr e")
    case True
    have "iterationsOf (nextAddr e) (trace e) = []"
      using tinv_tagD [OF ti] by (fastforce simp: iterationsOf_empty_iff)
    then show ?thesis using True b h st tr by simp
  next
    case False
    then show ?thesis using tinv_iterD [OF ti, of b s0] b h tr by simp
  qed
next
  fix b p i m assume "(b, SendIteration p i m) \<in> set (trace e')"
  then have x: "(b, SendIteration p i m) \<in> set (trace e)" using tr by simp
  then have "b \<noteq> nextAddr e" using tinv_tagD [OF ti x] by simp
  with tinv_sentD [OF ti x] show
    "\<exists>st. heap e' b = Some st \<and> p = ptyId st \<and> m = maxIterations st \<and> of_nat i < m + 1"
    using h by simp
next
  fix b ev assume "(b, ev) \<in> set (trace e')" "isTerminal ev"
  then have x: "(b, ev) \<in> set (trace e)" using tr by simp
  then have "b \<noteq> nextAddr e" using tinv_tagD [OF ti x] by simp
  with tinv_endD [OF ti x \<open>isTerminal ev\<close>] show "\<exists>st. heap e' b = Some st \<and> status st \<noteq> Running"
    using h by simp
next
  show "continueFollows (trace e')" using tinv_followsD [OF ti] tr by simp
  show "quietAfterEnd (trace e')" using tinv_quietD [OF ti] tr by simp
qed

lemma tinv_stop:
  assumes wf: "wf e" and ti: "tinv e"
  shows "tinv (stopContinuation p e)"
proof (cases "states e p")
  case None
  then show ?thesis using ti by (simp add: stop_unmapped)
next
  case (Some a)
  from wf_statesD [OF wf Some] obtain st where st: "heap e a = Some st" by blast
  show ?thesis
    by (rule tinv_end [OF ti st wf_heapD [OF wf st], of Cancelled _
          "StatusSet Cancelled # (if onCancelled (hooks st) then [HookCancelled p] else [])"])
      (simp_all add: stop_fields [OF Some st])
qed

lemma tinv_sched:
  assumes ti: "tinv e"
  shows "tinv (scheduleCheck a e)"
proof (cases "\<exists>st. heap e a = Some st \<and> status st = Running")
  case False
  then have "scheduleCheck a e = e"
    by (cases "heap e a") (auto simp: sched_no_object sched_not_running)
  then show ?thesis using ti by simp
next
  case True
  then obtain st where st: "heap e a = Some st" "status st = Running" by blast
  show ?thesis
    by (rule tinv_inert [OF ti st(1), where st' = "st\<lparr>timer := Some (nextTimer e)\<rparr>"])
      (simp_all add: sched_fields [OF st])
qed

lemma tinv_finish:
  assumes wf: "wf e" and ti: "tinv e" and a: "heap e a = Some st" and s: "s \<noteq> Running"
    and evs: "\<forall>p i m. SendIteration p i m \<notin> set evs"
  shows "tinv (finish a st s evs e)"
  by (rule tinv_end [OF ti a wf_heapD [OF wf a] s _ _ _ evs]) (simp_all add: finish_fields [OF a])

lemma tinv_iterate:
  assumes wf: "wf e" and ti: "tinv e" and a: "heap e a = Some st" and run: "status st = Running"
    and cap: "of_nat (currentIteration st) < maxIterations st"
  shows "tinv (iterate a st e)"
  by (rule tinv_iter [OF ti a wf_heapD [OF wf a] run cap,
        where pre = "if onIteration (hooks st)
                     then [HookIteration (ptyId st) (Suc (currentIteration st)) (maxIterations st)]
                     else []"])
    (simp_all add: iterate_fields [OF a])

lemma tinv_runIteration:
  assumes wf: "wf e" and ti: "tinv e"
  shows "tinv (runIteration a e)"
proof (cases "\<exists>st. heap e a = Some st \<and> status st = Running")
  case False
  then have "runIteration a e = e" by (intro runIteration_idle) (cases "heap e a"; auto)
  then show ?thesis using ti by simp
next
  case True
  then obtain st where st: "heap e a = Some st" "status st = Running" by blast
  have it: "\<not> maxIterations st \<le> of_nat (currentIteration st) \<Longrightarrow>
              tinv (scheduleCheck a (iterate a st e))"
    by (rule tinv_sched [OF tinv_iterate [OF wf ti st]]) simp
  show ?thesis
    using tinv_stop [OF wf ti] tinv_finish [OF wf ti st(1), of MaxReached] it
    by (simp add: runIteration_cases [OF st])
qed

lemma tinv_checkAndContinue:
  assumes wf: "wf e" and ti: "tinv e"
  shows "tinv (checkAndContinue a e)"
proof (cases "\<exists>st. heap e a = Some st \<and> status st = Running")
  case False
  then have "checkAndContinue a e = e" by (intro checkAndContinue_idle) (cases "heap e a"; auto)
  then show ?thesis using ti by simp
next
  case True
  then obtain st where st: "heap e a = Some st" "status st = Running" by blast
  show ?thesis
    using tinv_stop [OF wf ti] tinv_finish [OF wf ti st(1), of Done] tinv_sched [OF ti]
      tinv_runIteration [OF wf ti]
    by (simp add: checkAndContinue_cases [OF st])
qed

lemma tinv_fired:
  assumes ti: "tinv e" and a: "heap e a = Some st"
  shows "tinv (fired t a e)"
  by (rule tinv_inert [OF ti a, where st' = "st\<lparr>timer := None\<rparr>"]) (simp_all add: fired_fields [OF a])

lemma tinv_fireTimer:
  assumes wf: "wf e" and ti: "tinv e"
  shows "tinv (fireTimer t e)"
proof (cases "timers e t")
  case None
  then show ?thesis using ti by (simp add: fireTimer_cases)
next
  case (Some x)
  obtain a d where x: "x = (a, d)" by (cases x)
  from wf_timersD [OF wf Some [unfolded x]] obtain st where
    st: "heap e a = Some st" "status st = Running" "timer st = Some t" by blast
  show ?thesis
    using tinv_checkAndContinue [OF wf_fired(1) [OF wf st(1) st(3)] tinv_fired [OF ti st(1)]]
    by (simp add: fireTimer_cases Some x)
qed

lemma tinv_allocated:
  assumes ti: "tinv e" and st: "currentIteration st = 0"
  shows "tinv (allocated p st e)"
  by (rule tinv_alloc [OF ti st]) (simp_all add: allocated_def)

lemma tinv_start:
  assumes wf: "wf e" and ti: "tinv e"
  shows "tinv (startContinuation p g m w h opts e)"
proof -
  let ?e1 = "stopContinuation p e"
  let ?st = "newState p g m w h opts"
  have wf1: "wf ?e1" by (rule wf_stop [OF wf])
  have st: "ptyId ?st = p" "status ?st = Running" "currentIteration ?st = 0"
    by (simp_all add: newState_def)
  note al = wf_allocated [OF wf1 stop_clears_map st(1,2)]
  have ti2: "tinv (allocated p ?st ?e1)"
    by (rule tinv_allocated [OF tinv_stop [OF wf ti] st(3)])
  show ?thesis
    using tinv_runIteration [OF al(1) ti2] tinv_sched [OF ti2]
    by (simp add: startContinuation_cases Let_def)
qed

lemma tinv_buffered:
  assumes ti: "tinv e" and a: "heap e a = Some st"
  shows "tinv (buffered a data e)"
  by (rule tinv_inert [OF ti a, where st' = "st\<lparr>outputBuffer := trimBuffer (outputBuffer st @ data)\<rparr>"])
    (simp_all add: buffered_fields [OF a])

lemma tinv_disarmed:
  assumes ti: "tinv e" and a: "heap e a = Some st'"
  shows "tinv (disarmed a st e)"
  by (rule tinv_inert [OF ti a, where st' = "st'\<lparr>timer := None\<rparr>"])
    (simp_all add: disarmed_fields [OF a])

lemma tinv_onPtyData:
  assumes wf: "wf e" and ti: "tinv e"
  shows "tinv (onPtyData p data e)"
proof (cases "states e p")
  case None
  then show ?thesis using ti by (simp add: onPtyData_cases)
next
  case (Some a)
  from wf_statesD [OF wf Some] obtain st where st: "heap e a = Some st" "ptyId st = p" "status st = Running"
    by blast
  have a1: "heap (buffered a data e) a = Some (st\<lparr>outputBuffer := trimBuffer (outputBuffer st @ data)\<rparr>)"
    by (simp add: buffered_fields [OF st(1)])
  show ?thesis
    using tinv_sched [OF tinv_disarmed [OF tinv_buffered [OF ti st(1)] a1, of st]]
    by (simp add: onPtyData_cases Some st)
qed

lemma tinv_step: "wf e \<Longrightarrow> tinv e \<Longrightarrow> tinv (step e act)"
proof (cases act)
  case (DestroyWindow w)
  assume "wf e" "tinv e"
  then show ?thesis unfolding DestroyWindow by (simp add: tinv_def)
qed (simp_all add: tinv_start tinv_stop tinv_onPtyData tinv_fireTimer)

lemma tinv_run: "tinv (run acts)"
proof (induction acts rule: rev_induct)
  case Nil
  show ?case by (simp add: run_def tinv_init)
next
  case (snoc act acts)
  then show ?case by (simp add: run_snoc tinv_step wf_run)
qed

subsection \<open>Iteration events of a run\<close>

lemma whole_cap:
  fixes m :: rat
  assumes "m \<in> \<int>" "of_nat i < m + 1"
  shows "of_nat i \<le> m"
proof -
  from assms(1) obtain z :: int where z: "m = of_int z" by (auto elim: Ints_cases)
  have "(of_int (int i) :: rat) < of_int (z + 1)" using assms(2) z by simp
  then have "int i < z + 1" by (simp only: of_int_less_iff)
  then have "int i \<le> z" by simp
  then have "(of_int (int i) :: rat) \<le> of_int z" by (simp only: of_int_le_iff)
  then show ?thesis using z by simp
qed

text \<open>
  Claim C1, amended. Whatever the callers, the timers and the windows do, for every
  continuation run (a state object \<open>st\<close> at address \<open>a\<close>, made by one \<open>startContinuation\<close>):
  the \<open>continuation:iteration\<close> messages of the run carry the values 1, 2, ... up to the
  run's \<open>currentIteration\<close>, in this order; each carries the run's \<open>ptyId\<close> and cap and was
  sent while the count before it was below the cap, so that every value is below
  \<open>maxIterations + 1\<close>, and none exceeds \<open>maxIterations\<close> when the cap is a whole number;
  each is followed at once by the call \<open>onContinue(ptyId)\<close> of the same run; and after an
  event of a final status of a run (\<open>done\<close>, \<open>max_reached\<close> or \<open>cancelled\<close>) no iteration of
  that run is sent.
\<close>

theorem iteration_events:
  assumes "heap (run acts) a = Some st"
  shows "iterationsOf a (trace (run acts)) = [1..<Suc (currentIteration st)] \<and>
    (\<forall>p i m. (a, SendIteration p i m) \<in> set (trace (run acts)) \<longrightarrow>
       p = ptyId st \<and> m = maxIterations st \<and> 1 \<le> i \<and> of_nat i < maxIterations st + 1) \<and>
    (maxIterations st \<in> \<int> \<longrightarrow>
       (\<forall>i \<in> set (iterationsOf a (trace (run acts))). of_nat i \<le> maxIterations st)) \<and>
    continueFollows (trace (run acts)) \<and>
    quietAfterEnd (trace (run acts))"
proof -
  note ti = tinv_run [of acts]
  have it: "iterationsOf a (trace (run acts)) = [1..<Suc (currentIteration st)]"
    by (rule tinv_iterD [OF ti assms])
  have b: "\<forall>p i m. (a, SendIteration p i m) \<in> set (trace (run acts)) \<longrightarrow>
       p = ptyId st \<and> m = maxIterations st \<and> 1 \<le> i \<and> of_nat i < maxIterations st + 1"
  proof (intro allI impI)
    fix p i m assume x: "(a, SendIteration p i m) \<in> set (trace (run acts))"
    from tinv_sentD [OF ti x] assms
    have s: "p = ptyId st" "m = maxIterations st" "of_nat i < maxIterations st + 1" by auto
    have "i \<in> set (iterationsOf a (trace (run acts)))" using x by (auto simp: iterationsOf_mem)
    then have "1 \<le> i" unfolding it by (simp only: set_upt atLeastLessThan_iff)
    then show "p = ptyId st \<and> m = maxIterations st \<and> 1 \<le> i \<and> of_nat i < maxIterations st + 1"
      using s by simp
  qed
  have c: "maxIterations st \<in> \<int> \<longrightarrow>
       (\<forall>i \<in> set (iterationsOf a (trace (run acts))). of_nat i \<le> maxIterations st)"
  proof (intro impI ballI)
    fix i assume z: "maxIterations st \<in> \<int>" and i: "i \<in> set (iterationsOf a (trace (run acts)))"
    from i obtain p m where "(a, SendIteration p i m) \<in> set (trace (run acts))"
      by (auto simp: iterationsOf_mem)
    with b have "of_nat i < maxIterations st + 1" by blast
    then show "of_nat i \<le> maxIterations st" by (rule whole_cap [OF z])
  qed
  show ?thesis
    using it b c tinv_followsD [OF ti] tinv_quietD [OF ti] by blast
qed

text \<open>
  A one-shot loop with a cap of 2: the first iteration runs at the start, the second when
  the timer fires, and the next firing finds the cap reached.
\<close>

lemma loopRun_heap: "heap (run loopRun) 0 = Some loopFinal"
  by code_simp

theorem iteration_events_witness:
  "heap (run loopRun) 0 = Some loopFinal \<and>
   iterationsOf 0 (trace (run loopRun)) = [1, 2] \<and>
   maxIterations loopFinal = 2 \<and>
   list_all (\<lambda>i. of_nat i \<le> (2 :: rat)) (iterationsOf 0 (trace (run loopRun))) \<and>
   continueFollows (trace (run loopRun)) \<and>
   quietAfterEnd (trace (run loopRun))"
proof -
  note t = iteration_events [OF loopRun_heap]
  have m: "maxIterations loopFinal = 2" and k: "currentIteration loopFinal = 2"
    by (simp_all add: loopFinal_def)
  have z: "maxIterations loopFinal \<in> \<int>" by (simp add: m)
  have it: "iterationsOf 0 (trace (run loopRun)) = [1, 2]"
    using t by (simp add: k upt_rec)
  have le: "list_all (\<lambda>i. of_nat i \<le> (2 :: rat)) (iterationsOf 0 (trace (run loopRun)))"
    using t z m by (simp add: list_all_iff)
  show ?thesis using loopRun_heap it m le t by blast
qed

text \<open>
  The claim as stated keeps every value within \<open>maxIterations\<close>. \<open>continuation:start\<close> does
  not round the cap: it passes one half on as it is, the kick-off of the one-shot loop
  finds the count 0 below it, and iteration 1 is sent with the cap one half.
\<close>

theorem iteration_events_counterexample:
  "continuationMax (JsNumber (Finite (1 / 2))) = 1 / 2 \<and>
   map_option maxIterations (heap (run halfCapRun) 0) = Some (1 / 2) \<and>
   sends (trace (run halfCapRun)) = [(0, SendIteration (asc ''pty_1'') 1 (1 / 2))] \<and>
   iterationsOf 0 (trace (run halfCapRun)) = [1] \<and>
   \<not> list_all (\<lambda>i. of_nat i \<le> (1 / 2 :: rat)) (iterationsOf 0 (trace (run halfCapRun)))"
  by code_simp

subsection \<open>What a firing timer does\<close>

lemma sends_append [simp]: "sends (xs @ ys) = sends xs @ sends ys"
  by (simp add: sends_def)

lemma fire_pending:
  assumes t: "timers (run acts) t = Some (a, d)" and a: "heap (run acts) a = Some st"
  shows "status st = Running" "timer st = Some t" "d = quietDelayMs st"
    "states (run acts) (ptyId st) = Some a"
    "fireTimer t (run acts) = checkAndContinue a (fired t a (run acts))"
    "heap (fired t a (run acts)) a = Some (st\<lparr>timer := None\<rparr>)"
proof -
  from wf_timersD [OF wf_run t] a show r: "status st = Running" and "timer st = Some t"
    and "d = quietDelayMs st" by auto
  show "states (run acts) (ptyId st) = Some a" by (rule wf_runningD [OF wf_run a r])
  show "fireTimer t (run acts) = checkAndContinue a (fired t a (run acts))"
    by (simp add: fireTimer_cases t)
  show "heap (fired t a (run acts)) a = Some (st\<lparr>timer := None\<rparr>)"
    by (simp add: fired_fields [OF a])
qed

text \<open>
  Claim C2. When the quiet timer of a running state fires, the checks come in this order.
  If the window is destroyed, the continuation is stopped: the status becomes \<open>cancelled\<close>,
  the entry leaves the map, and no message is sent to the window. Otherwise, if a
  completion pattern matches the output buffer, the \<open>done\<close> message is sent and the entry
  leaves the map. Otherwise, if \<open>requirePrompt\<close> holds and no idle prompt is found in the
  last lines of the output, the timer is armed again and nothing is sent. Otherwise an
  iteration is run, which looks at the cap first: at the cap the run ends with
  \<open>max_reached\<close>, below it the iteration is counted, reported, and the timer armed again.
\<close>

theorem timer_fire_order:
  assumes t: "timers (run acts) t = Some (a, d)" and a: "heap (run acts) a = Some st"
  shows
    "(window st \<in> destroyed (run acts) \<longrightarrow>
        trace (fireTimer t (run acts)) =
          trace (run acts) @ map (Pair a)
            (StatusSet Cancelled # (if onCancelled (hooks st) then [HookCancelled (ptyId st)] else [])) \<and>
        sends (trace (fireTimer t (run acts))) = sends (trace (run acts)) \<and>
        states (fireTimer t (run acts)) = (states (run acts))(ptyId st := None) \<and>
        heap (fireTimer t (run acts)) = (heap (run acts))(a \<mapsto> st\<lparr>timer := None, status := Cancelled\<rparr>) \<and>
        timers (fireTimer t (run acts)) = (timers (run acts))(t := None)) \<and>
     (window st \<notin> destroyed (run acts) \<and> doneSignalled (outputBuffer st) \<longrightarrow>
        trace (fireTimer t (run acts)) =
          trace (run acts) @ map (Pair a)
            (StatusSet Done
             # (if onDone (hooks st) then [HookDone (ptyId st) (currentIteration st)] else [])
             @ [SendDone (ptyId st) (currentIteration st)]) \<and>
        states (fireTimer t (run acts)) = (states (run acts))(ptyId st := None) \<and>
        heap (fireTimer t (run acts)) = (heap (run acts))(a \<mapsto> st\<lparr>timer := None, status := Done\<rparr>) \<and>
        timers (fireTimer t (run acts)) = (timers (run acts))(t := None)) \<and>
     (window st \<notin> destroyed (run acts) \<and> \<not> doneSignalled (outputBuffer st) \<and>
      requirePrompt st \<and> \<not> isAtPrompt (outputBuffer st) \<longrightarrow>
        trace (fireTimer t (run acts)) = trace (run acts) \<and>
        states (fireTimer t (run acts)) = states (run acts) \<and>
        heap (fireTimer t (run acts)) =
          (heap (run acts))(a \<mapsto> st\<lparr>timer := Some (nextTimer (run acts))\<rparr>) \<and>
        timers (fireTimer t (run acts)) =
          ((timers (run acts))(t := None))(nextTimer (run acts) \<mapsto> (a, quietDelayMs st))) \<and>
     (window st \<notin> destroyed (run acts) \<and> \<not> doneSignalled (outputBuffer st) \<and>
      \<not> (requirePrompt st \<and> \<not> isAtPrompt (outputBuffer st)) \<longrightarrow>
        fireTimer t (run acts) = runIteration a (fired t a (run acts)) \<and>
        (maxIterations st \<le> of_nat (currentIteration st) \<longrightarrow>
           trace (fireTimer t (run acts)) =
             trace (run acts) @ map (Pair a)
               (StatusSet MaxReached
                # (if onMaxReached (hooks st)
                   then [HookMaxReached (ptyId st) (currentIteration st) (goal st)] else [])
                @ [SendMaxReached (ptyId st) (currentIteration st) (goal st)]) \<and>
           states (fireTimer t (run acts)) = (states (run acts))(ptyId st := None) \<and>
           heap (fireTimer t (run acts)) =
             (heap (run acts))(a \<mapsto> st\<lparr>timer := None, status := MaxReached\<rparr>) \<and>
           timers (fireTimer t (run acts)) = (timers (run acts))(t := None)) \<and>
        (of_nat (currentIteration st) < maxIterations st \<longrightarrow>
           trace (fireTimer t (run acts)) =
             trace (run acts) @ map (Pair a)
               ((if onIteration (hooks st)
                 then [HookIteration (ptyId st) (Suc (currentIteration st)) (maxIterations st)]
                 else [])
                @ [SendIteration (ptyId st) (Suc (currentIteration st)) (maxIterations st),
                   OnContinue (ptyId st)]) \<and>
           states (fireTimer t (run acts)) = states (run acts) \<and>
           heap (fireTimer t (run acts)) =
             (heap (run acts))(a \<mapsto> st\<lparr>currentIteration := Suc (currentIteration st),
                outputBuffer := [], timer := Some (nextTimer (run acts))\<rparr>) \<and>
           timers (fireTimer t (run acts)) =
             ((timers (run acts))(t := None))(nextTimer (run acts) \<mapsto> (a, quietDelayMs st))))"
proof -
  let ?e = "run acts"
  let ?f = "fired t a ?e"
  let ?st = "st\<lparr>timer := None\<rparr>"
  note p = fire_pending [OF t a]
  note ff = fired_fields [OF a, of t]
  have run: "status ?st = Running" using p(1) by simp
  have mapped: "states ?f (ptyId st) = Some a" using p(4) by (simp add: ff)
  note cc = checkAndContinue_cases [OF p(6) run]
  note ri = runIteration_cases [OF p(6) run]
  note sf = stop_fields [OF mapped p(6)]
  note fin = finish_fields [OF p(6)]
  note sc = sched_fields [OF p(6) run]
  have ita: "heap (iterate a ?st ?f) a =
      Some (?st\<lparr>currentIteration := Suc (currentIteration ?st), outputBuffer := []\<rparr>)"
    by (simp add: iterate_fields [OF p(6)])
  have itr: "status (?st\<lparr>currentIteration := Suc (currentIteration ?st), outputBuffer := []\<rparr>) = Running"
    using p(1) by simp
  note itf = iterate_fields [OF p(6)]
  note isc = sched_fields [OF ita itr]
  have d1: "window st \<in> destroyed ?e \<Longrightarrow> fireTimer t ?e = stopContinuation (ptyId st) ?f"
    by (simp add: p(5) cc ff)
  have c1: "window st \<in> destroyed ?e \<longrightarrow>
        trace (fireTimer t ?e) =
          trace ?e @ map (Pair a)
            (StatusSet Cancelled # (if onCancelled (hooks st) then [HookCancelled (ptyId st)] else [])) \<and>
        sends (trace (fireTimer t ?e)) = sends (trace ?e) \<and>
        states (fireTimer t ?e) = (states ?e)(ptyId st := None) \<and>
        heap (fireTimer t ?e) = (heap ?e)(a \<mapsto> st\<lparr>timer := None, status := Cancelled\<rparr>) \<and>
        timers (fireTimer t ?e) = (timers ?e)(t := None)"
    using d1 by (simp add: sf ff sends_def isSend_def)
  have d2: "window st \<notin> destroyed ?e \<Longrightarrow> doneSignalled (outputBuffer st) \<Longrightarrow>
      fireTimer t ?e = finish a ?st Done
          (StatusSet Done
           # (if onDone (hooks st) then [HookDone (ptyId st) (currentIteration st)] else [])
           @ [SendDone (ptyId st) (currentIteration st)]) ?f"
    by (simp add: p(5) cc ff)
  have c2: "window st \<notin> destroyed ?e \<and> doneSignalled (outputBuffer st) \<longrightarrow>
        trace (fireTimer t ?e) =
          trace ?e @ map (Pair a)
            (StatusSet Done
             # (if onDone (hooks st) then [HookDone (ptyId st) (currentIteration st)] else [])
             @ [SendDone (ptyId st) (currentIteration st)]) \<and>
        states (fireTimer t ?e) = (states ?e)(ptyId st := None) \<and>
        heap (fireTimer t ?e) = (heap ?e)(a \<mapsto> st\<lparr>timer := None, status := Done\<rparr>) \<and>
        timers (fireTimer t ?e) = (timers ?e)(t := None)"
    using d2 by (simp add: fin ff)
  have d3: "window st \<notin> destroyed ?e \<Longrightarrow> \<not> doneSignalled (outputBuffer st) \<Longrightarrow>
      requirePrompt st \<Longrightarrow> \<not> isAtPrompt (outputBuffer st) \<Longrightarrow>
      fireTimer t ?e = scheduleCheck a ?f"
    by (simp add: p(5) cc ff)
  have c3: "window st \<notin> destroyed ?e \<and> \<not> doneSignalled (outputBuffer st) \<and>
      requirePrompt st \<and> \<not> isAtPrompt (outputBuffer st) \<longrightarrow>
        trace (fireTimer t ?e) = trace ?e \<and>
        states (fireTimer t ?e) = states ?e \<and>
        heap (fireTimer t ?e) = (heap ?e)(a \<mapsto> st\<lparr>timer := Some (nextTimer ?e)\<rparr>) \<and>
        timers (fireTimer t ?e) = ((timers ?e)(t := None))(nextTimer ?e \<mapsto> (a, quietDelayMs st))"
    using d3 by (simp add: sc ff)
  have d4: "window st \<notin> destroyed ?e \<Longrightarrow> \<not> doneSignalled (outputBuffer st) \<Longrightarrow>
      \<not> (requirePrompt st \<and> \<not> isAtPrompt (outputBuffer st)) \<Longrightarrow>
      fireTimer t ?e = runIteration a ?f"
    by (auto simp add: p(5) cc ff)
  have r1: "window st \<notin> destroyed ?e \<Longrightarrow> maxIterations st \<le> of_nat (currentIteration st) \<Longrightarrow>
      runIteration a ?f = finish a ?st MaxReached
          (StatusSet MaxReached
           # (if onMaxReached (hooks st)
              then [HookMaxReached (ptyId st) (currentIteration st) (goal st)] else [])
           @ [SendMaxReached (ptyId st) (currentIteration st) (goal st)]) ?f"
    by (simp add: ri ff)
  have r2: "window st \<notin> destroyed ?e \<Longrightarrow> of_nat (currentIteration st) < maxIterations st \<Longrightarrow>
      runIteration a ?f = scheduleCheck a (iterate a ?st ?f)"
    by (simp add: ri ff)
  have c4: "window st \<notin> destroyed ?e \<and> \<not> doneSignalled (outputBuffer st) \<and>
      \<not> (requirePrompt st \<and> \<not> isAtPrompt (outputBuffer st)) \<longrightarrow>
        fireTimer t ?e = runIteration a ?f \<and>
        (maxIterations st \<le> of_nat (currentIteration st) \<longrightarrow>
           trace (fireTimer t ?e) =
             trace ?e @ map (Pair a)
               (StatusSet MaxReached
                # (if onMaxReached (hooks st)
                   then [HookMaxReached (ptyId st) (currentIteration st) (goal st)] else [])
                @ [SendMaxReached (ptyId st) (currentIteration st) (goal st)]) \<and>
           states (fireTimer t ?e) = (states ?e)(ptyId st := None) \<and>
           heap (fireTimer t ?e) = (heap ?e)(a \<mapsto> st\<lparr>timer := None, status := MaxReached\<rparr>) \<and>
           timers (fireTimer t ?e) = (timers ?e)(t := None)) \<and>
        (of_nat (currentIteration st) < maxIterations st \<longrightarrow>
           trace (fireTimer t ?e) =
             trace ?e @ map (Pair a)
               ((if onIteration (hooks st)
                 then [HookIteration (ptyId st) (Suc (currentIteration st)) (maxIterations st)]
                 else [])
                @ [SendIteration (ptyId st) (Suc (currentIteration st)) (maxIterations st),
                   OnContinue (ptyId st)]) \<and>
           states (fireTimer t ?e) = states ?e \<and>
           heap (fireTimer t ?e) =
             (heap ?e)(a \<mapsto> st\<lparr>currentIteration := Suc (currentIteration st),
                outputBuffer := [], timer := Some (nextTimer ?e)\<rparr>) \<and>
           timers (fireTimer t ?e) = ((timers ?e)(t := None))(nextTimer ?e \<mapsto> (a, quietDelayMs st)))"
  proof (intro impI conjI; (elim conjE)?)
    assume h: "window st \<notin> destroyed ?e" "\<not> doneSignalled (outputBuffer st)"
      "\<not> (requirePrompt st \<and> \<not> isAtPrompt (outputBuffer st))"
    show "fireTimer t ?e = runIteration a ?f" by (rule d4 [OF h])
    {
      assume cap: "maxIterations st \<le> of_nat (currentIteration st)"
      note e = d4 [OF h, unfolded r1 [OF h(1) cap]]
      show "trace (fireTimer t ?e) =
             trace ?e @ map (Pair a)
               (StatusSet MaxReached
                # (if onMaxReached (hooks st)
                   then [HookMaxReached (ptyId st) (currentIteration st) (goal st)] else [])
                @ [SendMaxReached (ptyId st) (currentIteration st) (goal st)])"
        by (simp add: e fin ff)
      show "states (fireTimer t ?e) = (states ?e)(ptyId st := None)" by (simp add: e fin ff)
      show "heap (fireTimer t ?e) = (heap ?e)(a \<mapsto> st\<lparr>timer := None, status := MaxReached\<rparr>)"
        by (simp add: e fin ff)
      show "timers (fireTimer t ?e) = (timers ?e)(t := None)" by (simp add: e fin ff)
    }
    {
      assume cap: "of_nat (currentIteration st) < maxIterations st"
      note e = d4 [OF h, unfolded r2 [OF h(1) cap]]
      show "trace (fireTimer t ?e) =
             trace ?e @ map (Pair a)
               ((if onIteration (hooks st)
                 then [HookIteration (ptyId st) (Suc (currentIteration st)) (maxIterations st)]
                 else [])
                @ [SendIteration (ptyId st) (Suc (currentIteration st)) (maxIterations st),
                   OnContinue (ptyId st)])"
        by (simp add: e isc itf ff)
      show "states (fireTimer t ?e) = states ?e" by (simp add: e isc itf ff)
      show "heap (fireTimer t ?e) =
             (heap ?e)(a \<mapsto> st\<lparr>currentIteration := Suc (currentIteration st),
                outputBuffer := [], timer := Some (nextTimer ?e)\<rparr>)"
        by (simp add: e isc itf ff)
      show "timers (fireTimer t ?e) = ((timers ?e)(t := None))(nextTimer ?e \<mapsto> (a, quietDelayMs st))"
        by (simp add: e isc itf ff)
    }
  qed
  show ?thesis using c1 c2 c3 c4 by blast
qed

text \<open>
  A watched session with a cap of 3 whose timer fires after the output \<open>all tasks completed\<close>,
  after \<open>working\<close>, after a shell prompt, and after its window was destroyed.
\<close>

lemma watched_engine:
  "length out \<le> 50000 \<Longrightarrow>
   run (watched out) =
     \<lparr>heap = [0 \<mapsto> watchedState out], states = [asc ''pty_1'' \<mapsto> 0], timers = [1 \<mapsto> (0, 250)],
      nextAddr = 1, nextTimer = 2, destroyed = {}, trace = []\<rparr>"
  by (simp add: run_def watched_def watchedState_def startContinuation_def stopContinuation_def
      initEngine_def allocated_def newState_def promptOptions_def scheduleCheck_def setState_def
      onPtyData_def buffered_def disarmed_def clearTimeout_def trimBuffer_def MAX_BUFFER_SIZE_def
      fun_upd_twist)

lemma done_text: "doneSignalled (asc ''all tasks completed'')"
  by code_simp

lemma working_text: "\<not> doneSignalled (asc ''working'') \<and> \<not> isAtPrompt (asc ''working'')"
  by code_simp

lemma prompt_text: "\<not> doneSignalled (asc ''$ '') \<and> isAtPrompt (asc ''$ '')"
  by code_simp

lemma watchedDestroyed_engine:
  "run watchedDestroyed =
     \<lparr>heap = [0 \<mapsto> watchedState (asc ''working'')], states = [asc ''pty_1'' \<mapsto> 0],
      timers = [1 \<mapsto> (0, 250)], nextAddr = 1, nextTimer = 2, destroyed = {0}, trace = []\<rparr>"
  by (simp add: watchedDestroyed_def run_snoc watched_engine asc_def)

lemma watchedState_fields:
  "ptyId (watchedState out) = asc ''pty_1''" "goal (watchedState out) = asc ''x''"
  "maxIterations (watchedState out) = 3" "currentIteration (watchedState out) = 0"
  "requirePrompt (watchedState out)" "quietDelayMs (watchedState out) = 250"
  "outputBuffer (watchedState out) = out" "window (watchedState out) = 0"
  "hooks (watchedState out) = allHooks"
  by (simp_all add: watchedState_def)

lemma allHooks_fields:
  "onIteration allHooks" "onDone allHooks" "onMaxReached allHooks" "\<not> onCancelled allHooks"
  by (simp_all add: allHooks_def)

theorem timer_fire_order_witness:
  "trace (fireTimer 1 (run (watched (asc ''all tasks completed'')))) =
     [(0, StatusSet Done), (0, HookDone (asc ''pty_1'') 0), (0, SendDone (asc ''pty_1'') 0)] \<and>
   states (fireTimer 1 (run (watched (asc ''all tasks completed'')))) (asc ''pty_1'') = None \<and>
   trace (fireTimer 1 (run (watched (asc ''working'')))) = [] \<and>
   timers (fireTimer 1 (run (watched (asc ''working'')))) 2 = Some (0, 250) \<and>
   trace (fireTimer 1 (run (watched (asc ''$ '')))) =
     [(0, HookIteration (asc ''pty_1'') 1 3), (0, SendIteration (asc ''pty_1'') 1 3),
      (0, OnContinue (asc ''pty_1''))] \<and>
   trace (fireTimer 1 (run watchedDestroyed)) = [(0, StatusSet Cancelled)] \<and>
   sends (trace (fireTimer 1 (run watchedDestroyed))) = [] \<and>
   states (fireTimer 1 (run watchedDestroyed)) (asc ''pty_1'') = None"
proof -
  have len: "length (asc ''all tasks completed'') \<le> 50000" "length (asc ''working'') \<le> 50000"
    "length (asc ''$ '') \<le> 50000"
    by (simp_all add: asc_def)
  note e1 = watched_engine [OF len(1)]
  note e2 = watched_engine [OF len(2)]
  note e3 = watched_engine [OF len(3)]
  note e4 = watchedDestroyed_engine
  have t1: "timers (run (watched (asc ''all tasks completed''))) 1 = Some (0, 250)"
    and h1: "heap (run (watched (asc ''all tasks completed''))) 0 = Some (watchedState (asc ''all tasks completed''))"
    by (simp_all add: e1)
  have t2: "timers (run (watched (asc ''working''))) 1 = Some (0, 250)"
    and h2: "heap (run (watched (asc ''working''))) 0 = Some (watchedState (asc ''working''))"
    by (simp_all add: e2)
  have t3: "timers (run (watched (asc ''$ ''))) 1 = Some (0, 250)"
    and h3: "heap (run (watched (asc ''$ ''))) 0 = Some (watchedState (asc ''$ ''))"
    by (simp_all add: e3)
  have t4: "timers (run watchedDestroyed) 1 = Some (0, 250)"
    and h4: "heap (run watchedDestroyed) 0 = Some (watchedState (asc ''working''))"
    by (simp_all add: e4)
  note f = watchedState_fields allHooks_fields
  have g1: "destroyed (run (watched (asc ''all tasks completed''))) = {}"
    "trace (run (watched (asc ''all tasks completed''))) = []"
    "states (run (watched (asc ''all tasks completed''))) = [asc ''pty_1'' \<mapsto> 0]"
    by (simp_all add: e1)
  have g2: "destroyed (run (watched (asc ''working''))) = {}"
    "trace (run (watched (asc ''working''))) = []"
    "timers (run (watched (asc ''working''))) = [1 \<mapsto> (0, 250)]"
    "nextTimer (run (watched (asc ''working''))) = 2"
    by (simp_all add: e2)
  have g3: "destroyed (run (watched (asc ''$ ''))) = {}"
    "trace (run (watched (asc ''$ ''))) = []"
    by (simp_all add: e3)
  have g4: "destroyed (run watchedDestroyed) = {0}"
    "trace (run watchedDestroyed) = []"
    "states (run watchedDestroyed) = [asc ''pty_1'' \<mapsto> 0]"
    by (simp_all add: e4)
  have a: "trace (fireTimer 1 (run (watched (asc ''all tasks completed'')))) =
      [(0, StatusSet Done), (0, HookDone (asc ''pty_1'') 0), (0, SendDone (asc ''pty_1'') 0)] \<and>
    states (fireTimer 1 (run (watched (asc ''all tasks completed'')))) (asc ''pty_1'') = None"
    using timer_fire_order [OF t1 h1] done_text by (simp add: f g1)
  have b: "trace (fireTimer 1 (run (watched (asc ''working'')))) = [] \<and>
    timers (fireTimer 1 (run (watched (asc ''working'')))) 2 = Some (0, 250)"
    using timer_fire_order [OF t2 h2] working_text by (simp add: f g2)
  have c: "trace (fireTimer 1 (run (watched (asc ''$ '')))) =
     [(0, HookIteration (asc ''pty_1'') 1 3), (0, SendIteration (asc ''pty_1'') 1 3),
      (0, OnContinue (asc ''pty_1''))]"
    using timer_fire_order [OF t3 h3] prompt_text by (simp add: f g3 cong: conj_cong)
  have d: "trace (fireTimer 1 (run watchedDestroyed)) = [(0, StatusSet Cancelled)] \<and>
   sends (trace (fireTimer 1 (run watchedDestroyed))) = [] \<and>
   states (fireTimer 1 (run watchedDestroyed)) (asc ''pty_1'') = None"
    using timer_fire_order [OF t4 h4] by (simp add: f g4 sends_def cong: conj_cong)
  show ?thesis using a b c d by blast
qed

subsection \<open>Output of the PTY\<close>

text \<open>The engine the main process is written against: buffer, trim, clear and arm again.\<close>

lemma trimBuffer_length: "length (trimBuffer buf) \<le> 50000"
  by (simp add: trimBuffer_def sliceLast_def MAX_BUFFER_SIZE_def BUFFER_TRIM_TO_def)

lemma trimBuffer_eq:
  "trimBuffer buf = (if 50000 < length buf then drop (length buf - 20000) buf else buf)"
  by (simp add: trimBuffer_def sliceLast_def MAX_BUFFER_SIZE_def BUFFER_TRIM_TO_def)

lemma onPtyData_running:
  assumes m: "states (run acts) p = Some a" and a: "heap (run acts) a = Some st"
  shows "heap (onPtyData p data (run acts)) =
           (heap (run acts))(a \<mapsto> st\<lparr>outputBuffer := trimBuffer (outputBuffer st @ data),
                                     timer := Some (nextTimer (run acts))\<rparr>)"
    and "length (trimBuffer (outputBuffer st @ data)) \<le> 50000"
    and "timers (onPtyData p data (run acts)) =
           ((case timer st of Some t \<Rightarrow> (timers (run acts))(t := None) | None \<Rightarrow> timers (run acts)))
             (nextTimer (run acts) \<mapsto> (a, quietDelayMs st))"
    and "pendingFor (onPtyData p data (run acts)) a = {nextTimer (run acts)}"
    and "trace (onPtyData p data (run acts)) = trace (run acts)"
    and "states (onPtyData p data (run acts)) = states (run acts)"
proof -
  let ?e = "run acts"
  let ?b = "buffered a data ?e"
  let ?st1 = "st\<lparr>outputBuffer := trimBuffer (outputBuffer st @ data)\<rparr>"
  let ?d = "disarmed a st ?b"
  from wf_statesD [OF wf_run m] a have run: "status st = Running" by auto
  have eq: "onPtyData p data ?e = scheduleCheck a ?d"
    using run by (simp add: onPtyData_cases m a)
  note bf = buffered_fields [OF a, of data]
  have a1: "heap ?b a = Some ?st1" by (simp add: bf)
  note df = disarmed_fields [OF a1, of st]
  have a2: "heap ?d a = Some (?st1\<lparr>timer := None\<rparr>)" by (simp add: df)
  have r2: "status (?st1\<lparr>timer := None\<rparr>) = Running" using run by simp
  note sf = sched_fields [OF a2 r2]
  show "heap (onPtyData p data ?e) =
           (heap ?e)(a \<mapsto> st\<lparr>outputBuffer := trimBuffer (outputBuffer st @ data),
                                     timer := Some (nextTimer ?e)\<rparr>)"
    by (simp add: eq sf df bf)
  show "length (trimBuffer (outputBuffer st @ data)) \<le> 50000" by (rule trimBuffer_length)
  show tm: "timers (onPtyData p data ?e) =
           ((case timer st of Some t \<Rightarrow> (timers ?e)(t := None) | None \<Rightarrow> timers ?e))
             (nextTimer ?e \<mapsto> (a, quietDelayMs st))"
    by (simp add: eq sf df bf split: option.splits)
  have none: "\<forall>t' d. timers ?d t' \<noteq> Some (a, d)"
    by (rule wf_disarmed(2) [OF wf_buffered [OF wf_run a] a1]) simp
  show "pendingFor (onPtyData p data ?e) a = {nextTimer ?e}"
    using none by (auto simp: pendingFor_def eq sf df bf split: if_splits)
  show "trace (onPtyData p data ?e) = trace ?e" by (simp add: eq sf df bf)
  show "states (onPtyData p data ?e) = states ?e" by (simp add: eq sf df bf)
qed

text \<open>The copy of the engine whose \<open>onPtyData\<close> does not arm the timer again.\<close>

lemma onPtyData_legacy_running:
  assumes m: "states (run acts) p = Some a" and a: "heap (run acts) a = Some st"
  shows "pendingFor (onPtyData_legacy p data (run acts)) a = {}"
proof -
  let ?e = "run acts"
  let ?b = "buffered_legacy a data ?e"
  let ?st1 = "st\<lparr>outputBuffer :=
        (if 50000 < length (outputBuffer st @ data)
         then sliceLast 20000 (outputBuffer st @ data)
         else outputBuffer st @ data)\<rparr>"
  from wf_statesD [OF wf_run m] a have run: "status st = Running" by auto
  have eq: "onPtyData_legacy p data ?e = disarmed a st ?b"
    using run by (simp add: onPtyData_legacy_def m a)
  have a1: "heap ?b a = Some ?st1" using a by (simp add: buffered_legacy_def prims)
  have wfb: "wf ?b"
    by (rule wf_inert [OF wf_run a, where st' = ?st1]) (use a in \<open>simp_all add: buffered_legacy_def prims\<close>)
  have none: "\<forall>t' d. timers (disarmed a st ?b) t' \<noteq> Some (a, d)"
    by (rule wf_disarmed(2) [OF wfb a1]) simp
  show ?thesis using none by (auto simp: pendingFor_def eq)
qed

lemma started_engine:
  "run started =
     \<lparr>heap = [0 \<mapsto> startedState], states = [asc ''pty_1'' \<mapsto> 0], timers = [0 \<mapsto> (0, 12000)],
      nextAddr = 1, nextTimer = 1, destroyed = {}, trace = []\<rparr>"
  by (simp add: run_def started_def startedState_def startContinuation_def stopContinuation_def
      initEngine_def allocated_def newState_def defaultOptions_def scheduleCheck_def setState_def
      QUIET_DELAY_MS_def)

text \<open>
  Claim C3. For every chunk of PTY output delivered to a running continuation state the
  engine appends the chunk to \<open>outputBuffer\<close>, trims the buffer to its last 20000
  characters when it exceeds 50000, and clears and arms the quiet timer again, so that a
  check is pending \<open>quietDelayMs\<close> after the last output. The engine above does so. The
  copy at \<open>electron/agents/continuation.ts\<close> clears the timer and stops: after
  \<open>startContinuation\<close> and one chunk of output its state holds the chunk and no timeout is
  pending, where the other copy has one pending with the delay of the state.
\<close>

theorem legacy_onPtyData_leaves_no_timer:
  "timers (run started) 0 = Some (0, 12000) \<and>
   states (run started) (asc ''pty_1'') = Some 0 \<and>
   timers (onPtyData_legacy (asc ''pty_1'') (asc ''hello'') (run started)) = Map.empty \<and>
   heap (onPtyData_legacy (asc ''pty_1'') (asc ''hello'') (run started)) 0 =
     Some (startedState\<lparr>outputBuffer := asc ''hello'', timer := None\<rparr>) \<and>
   timers (onPtyData (asc ''pty_1'') (asc ''hello'') (run started)) = [1 \<mapsto> (0, 12000)]"
  by (simp add: started_engine onPtyData_legacy_def onPtyData_def buffered_legacy_def
      buffered_def disarmed_def scheduleCheck_def setState_def clearTimeout_def startedState_def
      trimBuffer_def MAX_BUFFER_SIZE_def asc_def)

section \<open>Numbers at the command boundary\<close>

lemma continuationMax_whole:
  "1 \<le> k \<Longrightarrow> continuationMax (JsNumber (Finite (of_int k))) = of_int (min k 100)"
  by (simp add: continuationMax_def min_def)

lemma continuationMax_default:
  "(\<forall>x. v = JsNumber (Finite x) \<longrightarrow> x \<le> 0) \<Longrightarrow> continuationMax v = 20"
  by (auto simp: continuationMax_def split: jsvalue.splits jsnumber.splits)

lemma synthesisCount_range: "1 \<le> synthesisCount v \<and> synthesisCount v \<le> 12"
  by (auto simp: synthesisCount_def split: jsvalue.splits jsnumber.splits)

lemma synthesisCount_default: "(\<forall>x. v \<noteq> JsNumber (Finite x)) \<Longrightarrow> synthesisCount v = 5"
  by (auto simp: synthesisCount_def split: jsvalue.splits jsnumber.splits)

text \<open>
  Claim C10, amended. At the command boundary a whole number \<open>maxIterations\<close> of at least
  1 becomes \<open>min(maxIterations, 100)\<close>, which lies in [1, 100]; zero, a negative number,
  \<open>NaN\<close>, an infinity, a value that is not a number and a missing argument become 20. A
  finite \<open>n\<close> becomes \<open>max(1, min(12, floor(n)))\<close>, which lies in [1, 12]; anything else
  becomes 5.
\<close>

theorem boundary_clamps:
  "(\<forall>k::int. 1 \<le> k \<longrightarrow>
      continuationMax (JsNumber (Finite (of_int k))) = clamp 1 100 (of_int k) \<and>
      1 \<le> continuationMax (JsNumber (Finite (of_int k))) \<and>
      continuationMax (JsNumber (Finite (of_int k))) \<le> 100) \<and>
   (\<forall>v. (\<forall>x. v = JsNumber (Finite x) \<longrightarrow> x \<le> 0) \<longrightarrow> continuationMax v = 20) \<and>
   (\<forall>x. synthesisCount (JsNumber (Finite x)) = max 1 (min 12 \<lfloor>x\<rfloor>)) \<and>
   (\<forall>v. 1 \<le> synthesisCount v \<and> synthesisCount v \<le> 12) \<and>
   (\<forall>v. (\<forall>x. v \<noteq> JsNumber (Finite x)) \<longrightarrow> synthesisCount v = 5)"
proof (intro conjI allI impI)
  fix k :: int assume k: "1 \<le> k"
  have e: "continuationMax (JsNumber (Finite (of_int k))) = of_int (min k 100)"
    by (rule continuationMax_whole [OF k])
  have "(of_int (min k 100) :: rat) = max 1 (min 100 (of_int k))"
    using k by (simp add: min_def max_def)
  then show "continuationMax (JsNumber (Finite (of_int k))) = clamp 1 100 (of_int k)"
    by (simp add: e clamp_def)
  show "1 \<le> continuationMax (JsNumber (Finite (of_int k)))" using k by (simp add: e)
  show "continuationMax (JsNumber (Finite (of_int k))) \<le> 100" by (simp add: e)
next
  fix v assume "\<forall>x. v = JsNumber (Finite x) \<longrightarrow> x \<le> 0"
  then show "continuationMax v = 20" by (rule continuationMax_default)
next
  fix x show "synthesisCount (JsNumber (Finite x)) = max 1 (min 12 \<lfloor>x\<rfloor>)"
    by (simp add: synthesisCount_def)
next
  fix v show "1 \<le> synthesisCount v" "synthesisCount v \<le> 12"
    using synthesisCount_range [of v] by simp_all
next
  fix v assume "\<forall>x. v \<noteq> JsNumber (Finite x)"
  then show "synthesisCount v = 5" by (rule synthesisCount_default)
qed

theorem boundary_clamps_witness:
  "continuationMax (JsNumber (Finite 150)) = 100 \<and>
   continuationMax (JsNumber (Finite 7)) = 7 \<and>
   continuationMax (JsNumber (Finite (- 3))) = 20 \<and>
   continuationMax JsUndefined = 20 \<and>
   synthesisCount (JsNumber (Finite (27 / 10))) = 2 \<and>
   synthesisCount (JsNumber (Finite 40)) = 12 \<and>
   synthesisCount (JsNumber PosInfinity) = 5 \<and>
   synthesisCount JsUndefined = 5"
proof -
  note b = boundary_clamps
  have a: "continuationMax (JsNumber (Finite (of_int 150))) = clamp 1 100 (of_int 150)"
    using b by (metis (no_types) one_le_numeral)
  have a7: "continuationMax (JsNumber (Finite (of_int 7))) = clamp 1 100 (of_int 7)"
    using b by (metis (no_types) one_le_numeral)
  have n: "continuationMax (JsNumber (Finite (- 3))) = 20"
    using b by (auto simp: continuationMax_def)
  have u: "continuationMax JsUndefined = 20" using b by auto
  have s: "synthesisCount (JsNumber (Finite (27 / 10))) = max 1 (min 12 \<lfloor>27 / 10 :: rat\<rfloor>)"
    using b by blast
  have s40: "synthesisCount (JsNumber (Finite 40)) = max 1 (min 12 \<lfloor>40 :: rat\<rfloor>)"
    using b by blast
  have i: "synthesisCount (JsNumber PosInfinity) = 5" using b by auto
  have su: "synthesisCount JsUndefined = 5" using b by auto
  have fl: "\<lfloor>27 / 10 :: rat\<rfloor> = 2" by (simp add: floor_eq_iff)
  show ?thesis using a a7 n u s s40 i su by (simp add: clamp_def fl)
qed

text \<open>
  The claim as stated asks for a clamp to [1, 100]: zero would become 1. It becomes 20;
  and one half stays one half.
\<close>

theorem boundary_clamps_counterexample:
  "continuationMax (JsNumber (Finite 0)) = 20 \<and> clamp 1 100 0 = 1 \<and>
   continuationMax (JsNumber (Finite (1 / 2))) = 1 / 2 \<and>
   \<not> 1 \<le> continuationMax (JsNumber (Finite (1 / 2)))"
  by (simp add: continuationMax_def clamp_def)

section \<open>Properties of the memory search\<close>

lemma replaceAll_Nil [simp]: "replaceAll c r [] = []"
  by (simp add: replaceAll_def)

lemma replaceAll_Cons [simp]:
  "replaceAll c r (x # xs) = (if x = c then r else [x]) @ replaceAll c r xs"
  by (simp add: replaceAll_def)

lemma replaceAll_append [simp]: "replaceAll c r (xs @ ys) = replaceAll c r xs @ replaceAll c r ys"
  by (simp add: replaceAll_def)

lemma escapeLike_chars: "escapeLike s = concat (map escapeChar s)"
  by (induction s) (auto simp: escapeLike_def escapeChar_def)

lemma likeTokens_plain:
  "c \<noteq> 0x5C \<Longrightarrow> c \<noteq> 0x25 \<Longrightarrow> c \<noteq> 0x5F \<Longrightarrow> likeTokens (c # cs) = Literal c # likeTokens cs"
  by (cases cs) simp_all

lemma likeTokens_percent: "likeTokens (0x25 # cs) = AnySequence # likeTokens cs"
  by (cases cs) simp_all

lemma likeTokens_escaped:
  "likeTokens (concat (map escapeChar s) @ rest) = map Literal s @ likeTokens rest"
proof (induction s)
  case Nil
  show ?case by simp
next
  case (Cons c s)
  let ?tl = "concat (map escapeChar s) @ rest"
  show ?case
  proof (cases "c = 0x5C \<or> c = 0x25 \<or> c = 0x5F")
    case True
    then have "escapeChar c = [0x5C, c]" by (simp add: escapeChar_def)
    then show ?thesis using Cons by simp
  next
    case False
    then have e: "escapeChar c = [c]" by (simp add: escapeChar_def)
    from False have "likeTokens (c # ?tl) = Literal c # likeTokens ?tl"
      by (simp add: likeTokens_plain)
    then show ?thesis using Cons by (simp add: e)
  qed
qed

lemma likeTokens_pattern:
  "likeTokens ([0x25] @ escapeLike q @ [0x25]) = AnySequence # map Literal q @ [AnySequence]"
proof -
  have "likeTokens (0x25 # (escapeLike q @ [0x25])) = AnySequence # likeTokens (escapeLike q @ [0x25])"
    by (rule likeTokens_percent)
  then show ?thesis by (simp add: escapeLike_chars likeTokens_escaped)
qed

text \<open>
  Claim C4, amended. For every workspace and query \<open>searchMemory\<close> first runs the FTS
  statement (BM25 order, 10 rows) and returns its rows when there are any. It falls back
  to the \<open>LIKE\<close> statement when the FTS statement returns no row, or raises an FTS syntax
  error that SQLite reports with \<open>fts5: syntax error\<close>; an error of the FTS statement that
  is not an FTS syntax error reaches the caller, and so does an error of the \<open>LIKE\<close>
  statement. The pattern of the fallback is the query between two percent signs, with
  backslash, percent sign and underscore escaped: SQLite reads it as any sequence, the
  characters of the query, any sequence.
\<close>

theorem searchMemory_fallback:
  "(\<forall>rows. ftsRows db ws q = Inr rows \<and> rows \<noteq> [] \<longrightarrow>
      searchMemory db ws q = ([FtsCall ws q], Inr (take 10 rows))) \<and>
   (ftsRows db ws q = Inr [] \<longrightarrow> searchMemory db ws q = likeFallback db ws q) \<and>
   (\<forall>err. ftsRows db ws q = Inl err \<and> includesStr (messageOf err) (asc ''fts5: syntax error'') \<longrightarrow>
      searchMemory db ws q = likeFallback db ws q) \<and>
   (\<forall>err. ftsRows db ws q = Inl err \<and> \<not> ftsSyntaxError err \<longrightarrow>
      searchMemory db ws q = ([FtsCall ws q], Inl err)) \<and>
   likeFallback db ws q =
     ([FtsCall ws q, LikeCall ws ([0x25] @ escapeLike q @ [0x25]) ([0x25] @ escapeLike q @ [0x25])],
      limitRows 10 (likeRows db ws ([0x25] @ escapeLike q @ [0x25]) ([0x25] @ escapeLike q @ [0x25]))) \<and>
   likeTokens ([0x25] @ escapeLike q @ [0x25]) = AnySequence # map Literal q @ [AnySequence]"
proof (intro conjI allI impI)
  fix rows assume "ftsRows db ws q = Inr rows \<and> rows \<noteq> []"
  then show "searchMemory db ws q = ([FtsCall ws q], Inr (take 10 rows))"
    by (cases rows) (simp_all add: searchMemory_def searchMemoryFts_def limitRows_def)
next
  assume "ftsRows db ws q = Inr []"
  then show "searchMemory db ws q = likeFallback db ws q"
    by (simp add: searchMemory_def searchMemoryFts_def limitRows_def)
next
  fix err assume "ftsRows db ws q = Inl err \<and> includesStr (messageOf err) (asc ''fts5: syntax error'')"
  then show "searchMemory db ws q = likeFallback db ws q"
    by (simp add: searchMemory_def searchMemoryFts_def limitRows_def)
next
  fix err assume "ftsRows db ws q = Inl err \<and> \<not> ftsSyntaxError err"
  then show "searchMemory db ws q = ([FtsCall ws q], Inl err)"
    by (simp add: searchMemory_def searchMemoryFts_def limitRows_def ftsSyntaxError_def)
next
  show "likeFallback db ws q =
     ([FtsCall ws q, LikeCall ws ([0x25] @ escapeLike q @ [0x25]) ([0x25] @ escapeLike q @ [0x25])],
      limitRows 10 (likeRows db ws ([0x25] @ escapeLike q @ [0x25]) ([0x25] @ escapeLike q @ [0x25])))"
    by (simp add: likeFallback_def searchMemoryLike_def Let_def)
  show "likeTokens ([0x25] @ escapeLike q @ [0x25]) = AnySequence # map Literal q @ [AnySequence]"
    by (rule likeTokens_pattern)
qed

lemma syntax_message:
  "includesStr (asc ''fts5: syntax error near +'') (asc ''fts5: syntax error'')"
  by code_simp

lemma damaged_message:
  "\<not> ftsSyntaxError (JsError (asc ''database disk image is malformed''))"
  unfolding ftsSyntaxError_def messageOf_def by code_simp

lemma escapeLike_cpp: "escapeLike (asc ''c++'') = asc ''c++''"
  by code_simp

theorem searchMemory_fallback_witness:
  "searchMemory syntaxErrorDb (asc ''ws1'') (asc ''c++'') =
     ([FtsCall (asc ''ws1'') (asc ''c++''),
       LikeCall (asc ''ws1'') (asc ''%c++%'') (asc ''%c++%'')], Inr [demoRow]) \<and>
   searchMemory damagedDb (asc ''ws1'') (asc ''c++'') =
     ([FtsCall (asc ''ws1'') (asc ''c++'')],
      Inl (JsError (asc ''database disk image is malformed''))) \<and>
   searchMemory noMatchDb (asc ''ws1'') (asc ''c++'') =
     ([FtsCall (asc ''ws1'') (asc ''c++''),
       LikeCall (asc ''ws1'') (asc ''%c++%'') (asc ''%c++%'')], Inr [demoRow])"
proof -
  have p: "0x25 # escapeLike (asc ''c++'') @ [0x25] = asc ''%c++%''"
    unfolding escapeLike_cpp by code_simp
  note s = searchMemory_fallback [of syntaxErrorDb "asc ''ws1''" "asc ''c++''"]
  note d = searchMemory_fallback [of damagedDb "asc ''ws1''" "asc ''c++''"]
  note n = searchMemory_fallback [of noMatchDb "asc ''ws1''" "asc ''c++''"]
  have a: "searchMemory syntaxErrorDb (asc ''ws1'') (asc ''c++'') =
     ([FtsCall (asc ''ws1'') (asc ''c++''),
       LikeCall (asc ''ws1'') (asc ''%c++%'') (asc ''%c++%'')], Inr [demoRow])"
    using s syntax_message by (simp add: syntaxErrorDb_def messageOf_def p limitRows_def)
  have b: "searchMemory damagedDb (asc ''ws1'') (asc ''c++'') =
     ([FtsCall (asc ''ws1'') (asc ''c++'')],
      Inl (JsError (asc ''database disk image is malformed'')))"
    using d damaged_message by (simp add: damagedDb_def)
  have c: "searchMemory noMatchDb (asc ''ws1'') (asc ''c++'') =
     ([FtsCall (asc ''ws1'') (asc ''c++''),
       LikeCall (asc ''ws1'') (asc ''%c++%'') (asc ''%c++%'')], Inr [demoRow])"
    using n by (simp add: noMatchDb_def p limitRows_def)
  show ?thesis using a b c by simp
qed

text \<open>
  The claim as stated has the fallback run only after an FTS syntax error. Here the FTS
  statement raises nothing and returns no row, and the \<open>LIKE\<close> statement runs.
\<close>

theorem searchMemory_fallback_counterexample:
  "ftsRows noMatchDb (asc ''ws1'') (asc ''notes'') = Inr [] \<and>
   searchMemory noMatchDb (asc ''ws1'') (asc ''notes'') =
     ([FtsCall (asc ''ws1'') (asc ''notes''),
       LikeCall (asc ''ws1'') (asc ''%notes%'') (asc ''%notes%'')], Inr [demoRow])"
proof -
  have p: "0x25 # escapeLike (asc ''notes'') @ [0x25] = asc ''%notes%''"
    by code_simp
  show ?thesis
    by (simp add: searchMemory_def searchMemoryFts_def limitRows_def likeFallback_def
        searchMemoryLike_def noMatchDb_def Let_def p)
qed

text \<open>
  The comment in the \<open>catch\<close> block gives unbalanced quotes as the case it is there for.
  SQLite reports a quote that is not closed with \<open>unterminated string\<close>, a message the test
  of the block does not recognise: the error reaches the caller and the \<open>LIKE\<close> statement
  is not run. The query is \<open>hel lo\<close> followed by a double quote, \<open>0x22\<close>.
\<close>

lemma searchMemory_open_quote:
  "ftsSyntaxError (JsError (asc ''unterminated string'')) \<and>
   searchMemory openQuoteDb (asc ''ws1'') (asc ''hel lo'' @ [0x22]) =
     ([FtsCall (asc ''ws1'') (asc ''hel lo'' @ [0x22])], Inl (JsError (asc ''unterminated string'')))"
proof -
  have a: "includesStr (asc ''unterminated string'') (asc ''unterminated string'')"
    by code_simp
  have b: "\<not> includesStr (asc ''unterminated string'') (asc ''fts5: syntax error'')"
    by code_simp
  show ?thesis
    by (simp add: ftsSyntaxError_def messageOf_def a b searchMemory_def searchMemoryFts_def
        limitRows_def openQuoteDb_def)
qed

section \<open>Properties of the child environment\<close>

lemma copyAllowed_apply:
  "copyAllowed pe m x k = (if k = x \<and> truthy (pe k) then pe k else m k)"
  by (auto simp: copyAllowed_def truthy_def split: option.splits)

lemma copyAllowed_fold:
  "foldl (copyAllowed pe) m ks k = (if k \<in> set ks \<and> truthy (pe k) then pe k else m k)"
proof (induction ks arbitrary: m)
  case Nil
  show ?case by simp
next
  case (Cons x ks)
  have "foldl (copyAllowed pe) m (x # ks) k = foldl (copyAllowed pe) (copyAllowed pe m x) ks k"
    by simp
  also have "\<dots> = (if k \<in> set ks \<and> truthy (pe k) then pe k else copyAllowed pe m x k)"
    by (rule Cons)
  also have "\<dots> = (if k \<in> set (x # ks) \<and> truthy (pe k) then pe k else m k)"
    by (auto simp: copyAllowed_apply)
  finally show ?case .
qed

lemma forced_allowed:
  "asc ''TERM'' \<in> set ENV_ALLOWLIST" "asc ''COLORTERM'' \<in> set ENV_ALLOWLIST"
  "asc ''LANG'' \<in> set ENV_ALLOWLIST"
  by (simp_all add: ENV_ALLOWLIST_def)

lemma forced_distinct:
  "asc ''TERM'' \<noteq> asc ''COLORTERM''" "asc ''TERM'' \<noteq> asc ''LANG''"
  "asc ''COLORTERM'' \<noteq> asc ''LANG''"
  by (simp_all add: asc_def code_def)

lemma getSanitizedEnv_apply:
  "getSanitizedEnv pe k =
     (if k = asc ''LANG'' then
        (if truthy (pe (asc ''LANG'')) then pe (asc ''LANG'') else Some (asc ''en_US.UTF-8''))
      else if k = asc ''COLORTERM'' then Some (asc ''truecolor'')
      else if k = asc ''TERM'' then Some (asc ''xterm-256color'')
      else if k \<in> set ENV_ALLOWLIST \<and> truthy (pe k) then pe k else None)"
  using forced_distinct forced_allowed
  by (auto simp: getSanitizedEnv_def Let_def copyAllowed_fold truthy_def split: option.splits)

lemma getSanitizedEnv_cong:
  assumes "\<forall>k \<in> set ENV_ALLOWLIST. pe k = pe' k"
  shows "getSanitizedEnv pe = getSanitizedEnv pe'"
proof
  fix k
  show "getSanitizedEnv pe k = getSanitizedEnv pe' k"
    using assms forced_allowed by (auto simp: getSanitizedEnv_apply)
qed

text \<open>
  Claim C6. For every interactive PTY spawn the environment of the child has no key
  outside the allow-list (the forced keys are on it); \<open>TERM\<close> is \<open>xterm-256color\<close> and
  \<open>COLORTERM\<close> is \<open>truecolor\<close> whatever the parent has; \<open>LANG\<close> is \<open>en_US.UTF-8\<close> when the
  parent has none, and the parent's when it has one; every other variable of the child
  has the parent's value; and two parents that agree on the allow-listed variables give
  the same child environment and the same spawn options.
\<close>

theorem sanitized_env:
  "opt_env (ptySpawnOptions pe cwd) = getSanitizedEnv pe \<and>
   dom (getSanitizedEnv pe) \<subseteq> set ENV_ALLOWLIST \<and>
   getSanitizedEnv pe (asc ''TERM'') = Some (asc ''xterm-256color'') \<and>
   getSanitizedEnv pe (asc ''COLORTERM'') = Some (asc ''truecolor'') \<and>
   (pe (asc ''LANG'') = None \<longrightarrow> getSanitizedEnv pe (asc ''LANG'') = Some (asc ''en_US.UTF-8'')) \<and>
   (truthy (pe (asc ''LANG'')) \<longrightarrow> getSanitizedEnv pe (asc ''LANG'') = pe (asc ''LANG'')) \<and>
   (\<forall>k v. getSanitizedEnv pe k = Some v \<and> k \<notin> {asc ''TERM'', asc ''COLORTERM'', asc ''LANG''} \<longrightarrow>
      pe k = Some v) \<and>
   ((\<forall>k \<in> set ENV_ALLOWLIST. pe k = pe' k) \<longrightarrow>
      getSanitizedEnv pe = getSanitizedEnv pe' \<and>
      ptySpawnOptions pe cwd = ptySpawnOptions pe' cwd)"
proof (intro conjI allI impI)
  show "opt_env (ptySpawnOptions pe cwd) = getSanitizedEnv pe"
    by (simp add: ptySpawnOptions_def)
  show "dom (getSanitizedEnv pe) \<subseteq> set ENV_ALLOWLIST"
    using forced_allowed by (auto simp: getSanitizedEnv_apply split: if_splits)
  show "getSanitizedEnv pe (asc ''TERM'') = Some (asc ''xterm-256color'')"
    using forced_distinct by (simp add: getSanitizedEnv_apply)
  show "getSanitizedEnv pe (asc ''COLORTERM'') = Some (asc ''truecolor'')"
    using forced_distinct by (simp add: getSanitizedEnv_apply)
  show "getSanitizedEnv pe (asc ''LANG'') = Some (asc ''en_US.UTF-8'')" if "pe (asc ''LANG'') = None"
    using that by (simp add: getSanitizedEnv_apply truthy_def)
  show "getSanitizedEnv pe (asc ''LANG'') = pe (asc ''LANG'')" if "truthy (pe (asc ''LANG''))"
    using that by (simp add: getSanitizedEnv_apply)
  show "pe k = Some v"
    if "getSanitizedEnv pe k = Some v \<and> k \<notin> {asc ''TERM'', asc ''COLORTERM'', asc ''LANG''}" for k v
    using that by (auto simp: getSanitizedEnv_apply split: if_splits)
  show "getSanitizedEnv pe = getSanitizedEnv pe'" if "\<forall>k \<in> set ENV_ALLOWLIST. pe k = pe' k"
    using that by (rule getSanitizedEnv_cong)
  show "ptySpawnOptions pe cwd = ptySpawnOptions pe' cwd" if "\<forall>k \<in> set ENV_ALLOWLIST. pe k = pe' k"
    using getSanitizedEnv_cong [OF that] by (simp add: ptySpawnOptions_def)
qed

lemma parents_agree: "list_all (\<lambda>k. parentA k = parentB k) ENV_ALLOWLIST"
  by (simp add: ENV_ALLOWLIST_def parentA_def parentB_def asc_def code_def)

theorem sanitized_env_witness:
  "parentA (asc ''BUILD_TAG'') \<noteq> parentB (asc ''BUILD_TAG'') \<and>
   getSanitizedEnv parentA = getSanitizedEnv parentB \<and>
   getSanitizedEnv parentA (asc ''BUILD_TAG'') = None \<and>
   getSanitizedEnv parentA (asc ''EDITOR'') = None \<and>
   getSanitizedEnv parentA (asc ''PATH'') = Some (asc ''/usr/bin'') \<and>
   getSanitizedEnv parentA (asc ''LANG'') = Some (asc ''en_US.UTF-8'') \<and>
   getSanitizedEnv parentA (asc ''TERM'') = Some (asc ''xterm-256color'')"
proof -
  note t = sanitized_env [of parentA "[]" parentB]
  have ag: "\<forall>k \<in> set ENV_ALLOWLIST. parentA k = parentB k"
    using parents_agree by (simp add: list_all_iff)
  have l: "parentA (asc ''LANG'') = None"
    by (simp add: parentA_def asc_def code_def)
  have k: "parentA (asc ''BUILD_TAG'') = Some (asc ''one'')"
    "parentB (asc ''BUILD_TAG'') = Some (asc ''two'')"
    "parentA (asc ''EDITOR'') = Some (asc ''vi'')"
    "parentA (asc ''PATH'') = Some (asc ''/usr/bin'')"
    by (simp_all add: parentA_def parentB_def asc_def code_def)
  have ne: "asc ''one'' \<noteq> asc ''two''" by (simp add: asc_def code_def)
  have out: "asc ''BUILD_TAG'' \<notin> set ENV_ALLOWLIST" "asc ''EDITOR'' \<notin> set ENV_ALLOWLIST"
    by (simp_all add: ENV_ALLOWLIST_def asc_def code_def)
  have "getSanitizedEnv parentA = getSanitizedEnv parentB" using t ag by blast
  moreover have "getSanitizedEnv parentA (asc ''BUILD_TAG'') = None"
    using t out(1) by (cases "getSanitizedEnv parentA (asc ''BUILD_TAG'')") auto
  moreover have "getSanitizedEnv parentA (asc ''EDITOR'') = None"
    using t out(2) by (cases "getSanitizedEnv parentA (asc ''EDITOR'')") auto
  moreover have "getSanitizedEnv parentA (asc ''PATH'') = Some (asc ''/usr/bin'')"
    by (simp add: getSanitizedEnv_apply ENV_ALLOWLIST_def truthy_def parentA_def asc_def code_def)
  moreover have "getSanitizedEnv parentA (asc ''LANG'') = Some (asc ''en_US.UTF-8'')"
    using t l by blast
  moreover have "getSanitizedEnv parentA (asc ''TERM'') = Some (asc ''xterm-256color'')"
    using t by blast
  ultimately show ?thesis using k ne by simp
qed

section \<open>Properties of the session clean-up\<close>

subsection \<open>Timer handles belong to one object\<close>

lemma own_init: "own initEngine"
  by (simp add: own_def initEngine_def)

lemma own_setState:
  assumes "own e" and "\<And>s. timer (f s) = timer s \<or> timer (f s) = None"
  shows "own (setState a f e)"
  unfolding own_def
proof (intro allI impI)
  fix c st t assume h: "heap (setState a f e) c = Some st \<and> timer st = Some t"
  have "\<exists>st0. heap e c = Some st0 \<and> timer st0 = Some t"
  proof (cases "heap e a")
    case None
    then show ?thesis using h by (simp add: setState_def)
  next
    case (Some x)
    show ?thesis
    proof (cases "c = a")
      case True
      then have "st = f x" using h Some by (simp add: setState_def)
      then show ?thesis using assms(2) [of x] h Some True by auto
    next
      case False
      then show ?thesis using h Some by (simp add: setState_def)
    qed
  qed
  then obtain st0 where s0: "heap e c = Some st0" "timer st0 = Some t" by blast
  have tm: "timers (setState a f e) = timers e" "nextTimer (setState a f e) = nextTimer e"
    by (simp_all add: setState_def split: option.splits)
  from assms(1) s0 show "t < nextTimer (setState a f e) \<and>
      (\<forall>b d. timers (setState a f e) t = Some (b, d) \<longrightarrow> b = c)"
    unfolding own_def tm by blast
qed

lemma own_clearTimeout: "own e \<Longrightarrow> own (clearTimeout t e)"
  unfolding own_def clearTimeout_def by (simp split: if_splits) blast

lemma own_emit: "own e \<Longrightarrow> own (emit a evs e)"
  unfolding own_def emit_def by auto

lemma own_statesDelete: "own e \<Longrightarrow> own (statesDelete p e)"
  unfolding own_def statesDelete_def by auto

lemma own_destroyed: "own e \<Longrightarrow> own (e\<lparr>destroyed := d\<rparr>)"
  unfolding own_def by auto

lemma own_stop: "own e \<Longrightarrow> own (stopContinuation p e)"
  by (auto simp: stopContinuation_def intro!: own_statesDelete own_emit own_setState
      own_clearTimeout split: option.splits)

lemma own_scheduleCheck:
  assumes o: "own e"
  shows "own (scheduleCheck a e)"
proof (cases "heap e a")
  case None
  then show ?thesis using o by (simp add: scheduleCheck_def)
next
  case (Some st)
  show ?thesis
  proof (cases "status st = Running")
    case False
    then show ?thesis using o Some by (simp add: scheduleCheck_def)
  next
    case True
    let ?e = "e\<lparr>timers := (timers e)(nextTimer e \<mapsto> (a, quietDelayMs st)),
                nextTimer := Suc (nextTimer e)\<rparr>"
    have e: "scheduleCheck a e =
        ?e\<lparr>heap := (heap e)(a \<mapsto> st\<lparr>timer := Some (nextTimer e)\<rparr>)\<rparr>"
      using Some True by (simp add: scheduleCheck_def setState_def)
    show ?thesis
      unfolding e own_def
    proof (intro allI impI)
      fix c s t
      assume h: "heap (?e\<lparr>heap := (heap e)(a \<mapsto> st\<lparr>timer := Some (nextTimer e)\<rparr>)\<rparr>) c = Some s
                 \<and> timer s = Some t"
      show "t < nextTimer (?e\<lparr>heap := (heap e)(a \<mapsto> st\<lparr>timer := Some (nextTimer e)\<rparr>)\<rparr>) \<and>
            (\<forall>b d. timers (?e\<lparr>heap := (heap e)(a \<mapsto> st\<lparr>timer := Some (nextTimer e)\<rparr>)\<rparr>) t
                     = Some (b, d) \<longrightarrow> b = c)"
      proof (cases "c = a")
        case True
        then have "t = nextTimer e" using h by auto
        then show ?thesis using True by simp
      next
        case False
        then have c: "heap e c = Some s" "timer s = Some t" using h by auto
        from o c have "t < nextTimer e" and "\<forall>b d. timers e t = Some (b, d) \<longrightarrow> b = c"
          unfolding own_def by blast+
        then show ?thesis by auto
      qed
    qed
  qed
qed

lemma own_finish: "own e \<Longrightarrow> own (finish a st s evs e)"
  by (auto simp: finish_def intro!: own_statesDelete own_emit own_setState)

lemma own_iterate: "own e \<Longrightarrow> own (iterate a st e)"
  by (auto simp: iterate_def intro!: own_emit own_setState)

lemma own_runIteration: "own e \<Longrightarrow> own (runIteration a e)"
  by (auto simp: runIteration_def intro!: own_stop own_finish own_scheduleCheck own_iterate
      split: option.splits)

lemma own_checkAndContinue: "own e \<Longrightarrow> own (checkAndContinue a e)"
  by (auto simp: checkAndContinue_def intro!: own_stop own_finish own_scheduleCheck
      own_runIteration split: option.splits)

lemma own_fired: "own e \<Longrightarrow> own (fired t a e)"
  by (auto simp: fired_def intro!: own_setState own_clearTimeout)

lemma own_fireTimer: "own e \<Longrightarrow> own (fireTimer t e)"
  by (auto simp: fireTimer_def intro!: own_checkAndContinue own_fired split: option.splits)

lemma own_allocated: "own e \<Longrightarrow> timer st = None \<Longrightarrow> own (allocated p st e)"
  unfolding own_def allocated_def by (auto split: if_splits)

lemma own_start: "own e \<Longrightarrow> own (startContinuation p g m w h opts e)"
  by (auto simp: startContinuation_def Let_def newState_def
      intro!: own_runIteration own_scheduleCheck own_allocated own_stop)

lemma own_onPtyData: "own e \<Longrightarrow> own (onPtyData p d e)"
  by (auto simp: onPtyData_def buffered_def disarmed_def
      intro!: own_scheduleCheck own_setState own_clearTimeout split: option.splits)

lemma own_step: "own e \<Longrightarrow> own (step e act)"
  by (cases act) (simp_all add: own_start own_stop own_onPtyData own_fireTimer own_destroyed)

lemma own_run: "own (run acts)"
proof (induction acts rule: rev_induct)
  case Nil
  show ?case by (simp add: run_def own_init)
next
  case (snoc act acts)
  then show ?case by (simp add: run_snoc own_step)
qed

lemma stop_other:
  assumes wf: "wf e" and o: "own e" and q: "q \<noteq> p" and b: "states e q = Some b"
  shows "states (stopContinuation p e) q = Some b \<and>
         heap (stopContinuation p e) b = heap e b \<and>
         pendingFor (stopContinuation p e) b = pendingFor e b"
proof (cases "states e p")
  case None
  then show ?thesis using b by (simp add: stop_unmapped)
next
  case (Some a)
  from wf_statesD [OF wf b] obtain sb where
    sb: "heap e b = Some sb" "ptyId sb = q" "status sb = Running" by blast
  from wf_statesD [OF wf Some] obtain st where
    st: "heap e a = Some st" "ptyId st = p" "status st = Running" by blast
  have ab: "a \<noteq> b" using st sb q by auto
  note f = stop_fields [OF Some st(1)]
  have "pendingFor (stopContinuation p e) b = pendingFor e b"
  proof (cases "timer st")
    case None
    then show ?thesis by (simp add: pendingFor_def f)
  next
    case t: (Some t)
    have "timers e t \<noteq> Some (b, d)" for d
      using o st(1) t ab unfolding own_def by blast
    then show ?thesis by (auto simp: pendingFor_def f t)
  qed
  then show ?thesis using q b ab by (simp add: f)
qed

lemma stop_clears_timers:
  assumes wf: "wf e" and a: "states e p = Some a"
  shows "pendingFor (stopContinuation p e) a = {}"
proof -
  from wf_statesD [OF wf a] obtain st where
    st: "heap e a = Some st" "ptyId st = p" "status st = Running" by blast
  note f = stop_fields [OF a st(1)]
  show ?thesis
  proof (cases "timer st")
    case None
    then show ?thesis
      using no_timer_without_handle [OF wf st(1) None] by (simp add: pendingFor_def f)
  next
    case (Some t)
    then show ?thesis
      using no_other_timer [OF wf st(1) Some] by (simp add: pendingFor_def f)
  qed
qed

lemma cleanup_unknown: "ptySessions s p = None \<Longrightarrow> cleanupPtySession p s = s"
  by (simp add: cleanupPtySession_def)

lemma cleanup_fields:
  assumes "ptySessions s p = Some ps"
  shows "ptySessions (cleanupPtySession p s) = (ptySessions s)(p := None)"
    and "effects (cleanupPtySession p s) =
           effects s
           @ [SessionRemoved p, PtyKill (ps_pty ps) (\<not> killThrows s (ps_pty ps)),
              EndAgentSession (ps_sessionId ps), DeleteContinuationState p]
           @ (case idleNotifTimers s p of Some t \<Rightarrow> [ClearIdleTimer t] | None \<Rightarrow> [])"
    and "agentSessions (cleanupPtySession p s) =
           (case agentSessions s (ps_sessionId ps) of
              None \<Rightarrow> agentSessions s
            | Some x \<Rightarrow> (agentSessions s)(ps_sessionId ps \<mapsto> Ended))"
    and "continuationRows (cleanupPtySession p s) = continuationRows s - {p}"
    and "idleNotifTimers (cleanupPtySession p s) = (idleNotifTimers s)(p := None)"
    and "sessionHadActivity (cleanupPtySession p s) = sessionHadActivity s - {p}"
    and "continuation (cleanupPtySession p s) = stopContinuation p (continuation s)"
    and "killThrows (cleanupPtySession p s) = killThrows s"
  using assms
  by (simp_all add: cleanupPtySession_def Let_def logEffect_def tryKill_def endAgentSession_def
      deleteContinuationState_def split: option.splits)

text \<open>
  Claim C7. \<open>shell:kill\<close> is idempotent. The first call for a \<open>ptyId\<close> removes the handle
  from the session map, then kills the child (a \<open>kill\<close> that throws is swallowed), ends
  the agent-session row, deletes the continuation row, clears the idle timer and stops the
  continuation, whose entry leaves the map with no timeout pending. A second call for the
  same \<open>ptyId\<close>, and a call for an unknown one, changes nothing and returns \<open>ok\<close>. No
  call touches the handle, the timers, the rows or the continuation of another session.
  The continuation module is in a state that its operations can reach.
\<close>

theorem shellKill_idempotent:
  assumes r: "continuation s = run acts"
  shows
    "shellKill (JsString p) s = (Inr True, cleanupPtySession p s) \<and>
     (ptySessions s p = None \<longrightarrow> cleanupPtySession p s = s) \<and>
     cleanupPtySession p (cleanupPtySession p s) = cleanupPtySession p s \<and>
     shellKill (JsString p) (snd (shellKill (JsString p) s)) =
       (Inr True, snd (shellKill (JsString p) s)) \<and>
     (\<forall>ps. ptySessions s p = Some ps \<longrightarrow>
        ptySessions (cleanupPtySession p s) = (ptySessions s)(p := None) \<and>
        effects (cleanupPtySession p s) =
          effects s
          @ [SessionRemoved p, PtyKill (ps_pty ps) (\<not> killThrows s (ps_pty ps)),
             EndAgentSession (ps_sessionId ps), DeleteContinuationState p]
          @ (case idleNotifTimers s p of Some t \<Rightarrow> [ClearIdleTimer t] | None \<Rightarrow> []) \<and>
        (\<forall>x. agentSessions s (ps_sessionId ps) = Some x \<longrightarrow>
           agentSessions (cleanupPtySession p s) (ps_sessionId ps) = Some Ended) \<and>
        (\<forall>sid. sid \<noteq> ps_sessionId ps \<longrightarrow>
           agentSessions (cleanupPtySession p s) sid = agentSessions s sid) \<and>
        continuationRows (cleanupPtySession p s) = continuationRows s - {p} \<and>
        idleNotifTimers (cleanupPtySession p s) = (idleNotifTimers s)(p := None) \<and>
        sessionHadActivity (cleanupPtySession p s) = sessionHadActivity s - {p} \<and>
        continuation (cleanupPtySession p s) = stopContinuation p (continuation s) \<and>
        states (continuation (cleanupPtySession p s)) p = None \<and>
        (\<forall>a. states (continuation s) p = Some a \<longrightarrow>
           pendingFor (continuation (cleanupPtySession p s)) a = {})) \<and>
     (\<forall>q. q \<noteq> p \<longrightarrow>
        ptySessions (cleanupPtySession p s) q = ptySessions s q \<and>
        idleNotifTimers (cleanupPtySession p s) q = idleNotifTimers s q \<and>
        (q \<in> sessionHadActivity (cleanupPtySession p s) \<longleftrightarrow> q \<in> sessionHadActivity s) \<and>
        (q \<in> continuationRows (cleanupPtySession p s) \<longleftrightarrow> q \<in> continuationRows s) \<and>
        states (continuation (cleanupPtySession p s)) q = states (continuation s) q \<and>
        (\<forall>b. states (continuation s) q = Some b \<longrightarrow>
           heap (continuation (cleanupPtySession p s)) b = heap (continuation s) b \<and>
           pendingFor (continuation (cleanupPtySession p s)) b = pendingFor (continuation s) b))"
proof -
  let ?s = "cleanupPtySession p s"
  have wf: "wf (continuation s)" and o: "own (continuation s)"
    by (simp_all add: r wf_run own_run)
  have k: "shellKill (JsString p) s = (Inr True, ?s)"
    by (simp add: shellKill_def)
  have gone: "ptySessions ?s p = None"
    by (cases "ptySessions s p") (simp_all add: cleanup_unknown cleanup_fields)
  have twice: "cleanupPtySession p ?s = ?s"
    using gone by (rule cleanup_unknown)
  have k2: "shellKill (JsString p) (snd (shellKill (JsString p) s)) =
       (Inr True, snd (shellKill (JsString p) s))"
    by (simp add: shellKill_def twice)
  have known: "ptySessions ?s = (ptySessions s)(p := None) \<and>
        effects ?s =
          effects s
          @ [SessionRemoved p, PtyKill (ps_pty ps) (\<not> killThrows s (ps_pty ps)),
             EndAgentSession (ps_sessionId ps), DeleteContinuationState p]
          @ (case idleNotifTimers s p of Some t \<Rightarrow> [ClearIdleTimer t] | None \<Rightarrow> []) \<and>
        (\<forall>x. agentSessions s (ps_sessionId ps) = Some x \<longrightarrow>
           agentSessions ?s (ps_sessionId ps) = Some Ended) \<and>
        (\<forall>sid. sid \<noteq> ps_sessionId ps \<longrightarrow> agentSessions ?s sid = agentSessions s sid) \<and>
        continuationRows ?s = continuationRows s - {p} \<and>
        idleNotifTimers ?s = (idleNotifTimers s)(p := None) \<and>
        sessionHadActivity ?s = sessionHadActivity s - {p} \<and>
        continuation ?s = stopContinuation p (continuation s) \<and>
        states (continuation ?s) p = None \<and>
        (\<forall>a. states (continuation s) p = Some a \<longrightarrow> pendingFor (continuation ?s) a = {})"
    if ps: "ptySessions s p = Some ps" for ps
  proof -
    note f = cleanup_fields [OF ps]
    have "\<forall>a. states (continuation s) p = Some a \<longrightarrow> pendingFor (continuation ?s) a = {}"
      using stop_clears_timers [OF wf] by (simp add: f(7))
    moreover have "states (continuation ?s) p = None"
      by (simp add: f(7) stop_clears_map)
    moreover have "\<forall>x. agentSessions s (ps_sessionId ps) = Some x \<longrightarrow>
           agentSessions ?s (ps_sessionId ps) = Some Ended"
      by (simp add: f(3))
    moreover have "\<forall>sid. sid \<noteq> ps_sessionId ps \<longrightarrow> agentSessions ?s sid = agentSessions s sid"
      by (simp add: f(3) split: option.splits)
    ultimately show ?thesis using f(1,2,4,5,6,7) by simp
  qed
  have other: "ptySessions ?s q = ptySessions s q \<and>
        idleNotifTimers ?s q = idleNotifTimers s q \<and>
        (q \<in> sessionHadActivity ?s \<longleftrightarrow> q \<in> sessionHadActivity s) \<and>
        (q \<in> continuationRows ?s \<longleftrightarrow> q \<in> continuationRows s) \<and>
        states (continuation ?s) q = states (continuation s) q \<and>
        (\<forall>b. states (continuation s) q = Some b \<longrightarrow>
           heap (continuation ?s) b = heap (continuation s) b \<and>
           pendingFor (continuation ?s) b = pendingFor (continuation s) b)"
    if q: "q \<noteq> p" for q
  proof (cases "ptySessions s p")
    case None
    then show ?thesis by (simp add: cleanup_unknown)
  next
    case (Some ps)
    note f = cleanup_fields [OF Some]
    have st: "states (stopContinuation p (continuation s)) q = states (continuation s) q"
    proof (cases "states (continuation s) p")
      case None
      then show ?thesis by (simp add: stop_unmapped)
    next
      case (Some a)
      from wf_statesD [OF wf Some] obtain x where "heap (continuation s) a = Some x" by blast
      from stop_fields(2) [OF Some this] show ?thesis using q by simp
    qed
    show ?thesis
      using q stop_other [OF wf o q] by (simp add: f st)
  qed
  show ?thesis
    using k cleanup_unknown [of s p] twice k2 known other by blast
qed


lemma pty_names: "asc ''pty_1'' \<noteq> asc ''pty_2''" "asc ''pty_2'' \<noteq> asc ''pty_1''"
  "asc ''pty_9'' \<noteq> asc ''pty_1''" "asc ''pty_9'' \<noteq> asc ''pty_2''"
  by (simp_all add: asc_def code_def)

theorem shellKill_idempotent_witness:
  "shellKill (JsString (asc ''pty_1'')) twoSessions =
     (Inr True, cleanupPtySession (asc ''pty_1'') twoSessions) \<and>
   effects (cleanupPtySession (asc ''pty_1'') twoSessions) =
     [SessionRemoved (asc ''pty_1''), PtyKill 11 False, EndAgentSession (asc ''s1''),
      DeleteContinuationState (asc ''pty_1''), ClearIdleTimer 7] \<and>
   ptySessions (cleanupPtySession (asc ''pty_1'') twoSessions) (asc ''pty_1'') = None \<and>
   ptySessions (cleanupPtySession (asc ''pty_1'') twoSessions) (asc ''pty_2'') = Some session2 \<and>
   states (continuation (cleanupPtySession (asc ''pty_1'') twoSessions)) (asc ''pty_1'') = None \<and>
   states (continuation (cleanupPtySession (asc ''pty_1'') twoSessions)) (asc ''pty_2'') =
     states (run twoRuns) (asc ''pty_2'') \<and>
   cleanupPtySession (asc ''pty_1'') (cleanupPtySession (asc ''pty_1'') twoSessions) =
     cleanupPtySession (asc ''pty_1'') twoSessions \<and>
   cleanupPtySession (asc ''pty_9'') twoSessions = twoSessions"
proof -
  have r: "continuation twoSessions = run twoRuns" by (simp add: twoSessions_def)
  note k1 = shellKill_idempotent [OF r, of "asc ''pty_1''"]
  note k9 = shellKill_idempotent [OF r, of "asc ''pty_9''"]
  have s1: "ptySessions twoSessions (asc ''pty_1'') = Some session1"
    and s2: "ptySessions twoSessions (asc ''pty_2'') = Some session2"
    and s9: "ptySessions twoSessions (asc ''pty_9'') = None"
    and i1: "idleNotifTimers twoSessions (asc ''pty_1'') = Some 7"
    and e0: "effects twoSessions = []"
    and kt: "killThrows twoSessions 11"
    using pty_names by (simp_all add: twoSessions_def)
  have f: "ps_pty session1 = 11" "ps_sessionId session1 = asc ''s1''"
    by (simp_all add: session1_def)
  from k1 s1 have a: "effects (cleanupPtySession (asc ''pty_1'') twoSessions) =
     [SessionRemoved (asc ''pty_1''), PtyKill 11 False, EndAgentSession (asc ''s1''),
      DeleteContinuationState (asc ''pty_1''), ClearIdleTimer 7]"
    by (simp add: i1 e0 kt f cong: conj_cong)
  from k1 s1 have b: "ptySessions (cleanupPtySession (asc ''pty_1'') twoSessions) (asc ''pty_1'') = None"
    and c: "states (continuation (cleanupPtySession (asc ''pty_1'') twoSessions)) (asc ''pty_1'') = None"
    by (simp_all cong: conj_cong)
  from k1 pty_names(2) have d:
    "ptySessions (cleanupPtySession (asc ''pty_1'') twoSessions) (asc ''pty_2'') = Some session2"
    "states (continuation (cleanupPtySession (asc ''pty_1'') twoSessions)) (asc ''pty_2'') =
     states (run twoRuns) (asc ''pty_2'')"
    by (simp_all add: s2 r cong: conj_cong)
  from k9 s9 have g: "cleanupPtySession (asc ''pty_9'') twoSessions = twoSessions" by blast
  show ?thesis using k1 a b c d g by blast
qed

section \<open>Properties of hidden runs and synthesis jobs\<close>

subsection \<open>Hidden runs\<close>

lemma resolve_some: "hs_resolved (resolve v st) \<noteq> None"
  by (simp add: resolve_def split: option.splits)

lemma resolve_some_ex: "\<exists>y. hs_resolved (resolve v st) = Some y"
  by (simp add: resolve_def split: option.splits)

lemma resolve_fields:
  "hs_effects (resolve v st) = hs_effects st" "hs_finished (resolve v st) = hs_finished st"
  "hs_output (resolve v st) = hs_output st"
  by (simp_all add: resolve_def split: option.splits)


lemma resolve_settled: "hs_resolved st = Some x \<Longrightarrow> hs_resolved (resolve v st) = Some x"
  by (simp add: resolve_def)



lemma event_inv:
  "(hs_finished st \<longrightarrow> hs_resolved st \<noteq> None) \<Longrightarrow>
   (hs_finished (onChildEvent sz st ev) \<longrightarrow> hs_resolved (onChildEvent sz st ev) \<noteq> None)"
  by (cases ev) (simp_all add: resolve_fields resolve_some_ex)

lemma events_inv:
  "(hs_finished st \<longrightarrow> hs_resolved st \<noteq> None) \<Longrightarrow>
   (hs_finished (foldl (onChildEvent sz) st evs) \<longrightarrow>
    hs_resolved (foldl (onChildEvent sz) st evs) \<noteq> None)"
proof (induction evs arbitrary: st)
  case Nil
  then show ?case by simp
next
  case (Cons ev evs)
  from event_inv [OF Cons.prems] have "hs_finished (onChildEvent sz st ev) \<longrightarrow>
    hs_resolved (onChildEvent sz st ev) \<noteq> None" .
  from Cons.IH [OF this] show ?case by simp
qed

lemma event_finished:
  "hs_finished st \<Longrightarrow>
   hs_finished (onChildEvent sz st ev) \<and> hs_resolved (onChildEvent sz st ev) = hs_resolved st"
  by (cases ev) simp_all

lemma events_finished:
  "hs_finished st \<Longrightarrow>
   hs_finished (foldl (onChildEvent sz) st evs) \<and>
   hs_resolved (foldl (onChildEvent sz) st evs) = hs_resolved st"
proof (induction evs arbitrary: st)
  case Nil
  then show ?case by simp
next
  case (Cons ev evs)
  from event_finished [OF Cons.prems, of sz ev] Cons.IH [of "onChildEvent sz st ev"]
  show ?case by simp
qed



lemma timeout_resolved:
  "(hs_finished st \<longrightarrow> hs_resolved st \<noteq> None) \<Longrightarrow>
   hs_finished (onTimeout st) \<and> hs_resolved (onTimeout st) \<noteq> None"
  by (simp add: onTimeout_def resolve_fields resolve_some_ex)

lemma hidden_resolves: "hs_resolved (runHiddenClaudeOnce sz g cwd options child) \<noteq> None"
proof (cases "spawnThrows child")
  case (Some msg)
  then show ?thesis by (simp add: runHiddenClaudeOnce_def)
next
  case None
  let ?init = "\<lparr>hs_output = [], hs_finished = False, hs_resolved = None,
     hs_effects = [Spawn (asc ''claude'') (hiddenArgs options) cwd, StdinEnd g]\<rparr>"
  let ?s1 = "foldl (onChildEvent sz) ?init (take (beforeTimeout child) (childEvents child))"
  have "hs_finished ?s1 \<longrightarrow> hs_resolved ?s1 \<noteq> None"
    by (rule events_inv) simp
  from timeout_resolved [OF this] have t: "hs_finished (onTimeout ?s1)"
    "hs_resolved (onTimeout ?s1) \<noteq> None" by simp_all
  from events_finished [OF t(1)] t(2) show ?thesis
    using None by (simp add: runHiddenClaudeOnce_def)
qed



subsection \<open>Synthesis jobs\<close>

lemma completeRun_eq:
  "completeRun sz w ws path g n st i =
     sendToWindow w (EnsembleProgress (newJobId w) ws g (completed st + 1) n)
       (st\<lparr>results := (results st)[i := Some (runHeader i n
                          @ the (hs_resolved (jobRun sz w g path i)))],
           completed := completed st + 1\<rparr>)"
proof (cases "hs_resolved (jobRun sz w g path i)")
  case None
  then show ?thesis using hidden_resolves by (simp add: jobRun_def)
next
  case (Some v)
  then show ?thesis by (simp add: completeRun_def)
qed

lemma fold_complete:
  "completed (foldl (completeRun sz w ws path g n) st order) = completed st + length order \<and>
   sendCount (foldl (completeRun sz w ws path g n) st order) = sendCount st + length order \<and>
   length (results (foldl (completeRun sz w ws path g n) st order)) = length (results st) \<and>
   sent (foldl (completeRun sz w ws path g n) st order) =
     sent st @ map (\<lambda>k. EnsembleProgress (newJobId w) ws g (completed st + Suc k) n)
                (filter (\<lambda>k. windowAt w (sendCount st + k)) [0..<length order])"
proof (induction order rule: rev_induct)
  case Nil
  show ?case by simp
next
  case (snoc x xs)
  then show ?case by (simp add: completeRun_eq sendToWindow_def)
qed


lemma filter_upt_Suc:
  "filter P [0..<Suc n] = (if P 0 then [0] else []) @ map Suc (filter (\<lambda>k. P (Suc k)) [0..<n])"
proof -
  have "[0..<Suc n] = 0 # map Suc [0..<n]"
    by (simp add: upt_conv_Cons map_Suc_upt del: upt_Suc)
  then show ?thesis by (simp add: filter_map comp_def del: upt_Suc)
qed

lemma job_fields:
  "completed (jobAfterRuns sz w ws path g n) = length (completionOrder w)"
  "sendCount (jobAfterRuns sz w ws path g n) = Suc (length (completionOrder w))"
  "length (results (jobAfterRuns sz w ws path g n)) = nat (synthesisCount n)"
  "sent (jobAfterRuns sz w ws path g n) =
     map (\<lambda>c. EnsembleProgress (newJobId w) ws g c (nat (synthesisCount n)))
       (filter (windowAt w) [0..<Suc (length (completionOrder w))])"
  using fold_complete [of sz w ws path g "nat (synthesisCount n)"
      "sendToWindow w (EnsembleProgress (newJobId w) ws g 0 (nat (synthesisCount n)))
         \<lparr>results = replicate (nat (synthesisCount n)) None, completed = 0, sent = [],
          sendCount = 0\<rparr>" "completionOrder w"]
  by (simp_all add: jobAfterRuns_def sendToWindow_def filter_upt_Suc comp_def del: upt_Suc)

lemma progressValues_map:
  "progressValues (map (\<lambda>c. EnsembleProgress j ws g c t) cs) = cs"
  by (induction cs) (simp_all add: progressValues_def)

lemma progressValues_append:
  "progressValues (xs @ ys) = progressValues xs @ progressValues ys"
  by (simp add: progressValues_def)

lemma validOrder_length:
  assumes "validOrder w n"
  shows "length (completionOrder w) \<le> n"
    and "(\<forall>i<n. homeThrows w i = None) \<Longrightarrow> length (completionOrder w) = n"
proof -
  from assms have d: "distinct (completionOrder w)"
    and s: "set (completionOrder w) = {i. i < n \<and> homeThrows w i = None}"
    by (simp_all add: validOrder_def)
  have "card (set (completionOrder w)) \<le> card {..<n}"
    by (rule card_mono) (auto simp: s)
  then show "length (completionOrder w) \<le> n" using d by (simp add: distinct_card)
  assume "\<forall>i<n. homeThrows w i = None"
  then have "set (completionOrder w) = {..<n}" using s by auto
  then have "card (set (completionOrder w)) = n" by simp
  then show "length (completionOrder w) = n" using d by (simp add: distinct_card)
qed

lemma find_none: "(\<forall>i<n. homeThrows w i = None) \<Longrightarrow> List.find (\<lambda>i. homeThrows w i \<noteq> None) [0..<n] = None"
  by (simp add: find_None_iff)

lemma synthesis_success:
  assumes d: "dirExists w" and v: "validOrder w (nat (synthesisCount n))"
    and h: "\<forall>i<nat (synthesisCount n). homeThrows w i = None"
  shows "ensembleSynthesis sz w ws path g n =
     (Some (Inr \<lparr>ok = True, count = nat (synthesisCount n), pl_sessionId = randomUUID w,
                 pl_jobId = newJobId w\<rparr>),
      map (\<lambda>c. EnsembleProgress (newJobId w) ws g c (nat (synthesisCount n)))
        (filter (windowAt w) [0..<Suc (nat (synthesisCount n))])
      @ (if windowAt w (Suc (nat (synthesisCount n)))
         then [EnsembleDone (newJobId w) ws g (randomUUID w) (nat (synthesisCount n))] else []))"
proof -
  note l = validOrder_length(2) [OF v h]
  have "hs_resolved (jobFinalRun sz w ws path g n) \<noteq> None"
    by (simp add: jobFinalRun_def hidden_resolves)
  then obtain x where r: "hs_resolved (jobFinalRun sz w ws path g n) = Some x" by blast
  show ?thesis
    unfolding ensembleSynthesis_def find_none [OF h]
    using d by (simp add: r job_fields l sendToWindow_def del: upt_Suc)
qed

subsection \<open>The session id\<close>

lemma low_bits: "unat (x AND m :: 8 word) \<le> unat m"
  using word_and_le1 [of x m] by (simp only: word_le_nat_alt)

lemma or_high_bits:
  fixes x :: "8 word"
  assumes "m AND h = 0" and "unat m + unat h < 256"
  shows "unat ((x AND m) OR h) = unat (x AND m) + unat h"
proof -
  have "(x AND m) AND h = x AND (m AND h)" by (simp only: and.assoc)
  then have z: "(x AND m) AND h = 0" by (simp add: assms(1))
  have "((x AND m) AND h) + ((x AND m) OR h) = (x AND m) + h" by (rule word_plus_and_or)
  then have "(x AND m) OR h = (x AND m) + h" by (simp add: z)
  then have "unat ((x AND m) OR h) = unat ((x AND m) + h)" by simp
  also have "\<dots> = unat (x AND m) + unat h"
    using low_bits [of x m] assms(2) by (simp add: unat_word_ariths)
  finally show ?thesis .
qed

lemma version_nibble: "unat ((x AND 0x0F) OR 0x40 :: 8 word) div 16 = 4"
  using low_bits [of x "0x0F"] by (simp add: or_high_bits)

lemma variant_nibble:
  "unat ((x AND 0x3F) OR 0x80 :: 8 word) div 16 \<in> {8, 9, 10, 11}"
proof -
  have "unat ((x AND 0x3F) OR 0x80) = unat (x AND 0x3F) + 128" by (simp add: or_high_bits)
  moreover have "unat (x AND 0x3F) \<le> 63" using low_bits [of x "0x3F"] by simp
  ultimately have "128 \<le> unat ((x AND 0x3F) OR 0x80) \<and> unat ((x AND 0x3F) OR 0x80) < 192"
    by simp
  then have "8 \<le> unat ((x AND 0x3F) OR 0x80) div 16 \<and> unat ((x AND 0x3F) OR 0x80) div 16 < 12"
    by arith
  then show ?thesis by auto
qed

text \<open>
  The text of a UUID: 36 characters, hyphens (\<open>0x2D\<close>) after the groups, the version
  digit \<open>4\<close> (\<open>0x34\<close>) and a variant digit among \<open>8\<close>, \<open>9\<close>, \<open>a\<close>, \<open>b\<close>.
\<close>

lemma uuid_length: "length (uuidText r) = 36"
  by (simp add: uuidText_def hexByte_def)

lemma uuid_hyphens:
  "uuidText r ! 8 = 0x2D" "uuidText r ! 13 = 0x2D" "uuidText r ! 18 = 0x2D" "uuidText r ! 23 = 0x2D"
  by (simp_all add: uuidText_def hexByte_def)

lemma uuid_version: "uuidText r ! 14 = 0x34"
  by (simp add: uuidText_def hexByte_def uuidByte_def version_nibble hexDigit_def)

lemma uuid_variant: "uuidText r ! 19 \<in> {0x38, 0x39, 0x61, 0x62}"
  using variant_nibble [of "r 8"]
  by (auto simp: uuidText_def hexByte_def uuidByte_def hexDigit_def)

lemma uuidByte_AB: "uuidByte (\<lambda>i. 0xAB) i = (if i = 6 then 0x4B else 0xAB)"
  by (simp add: uuidByte_def)

lemma hexByte_AB: "hexByte 0xAB = asc ''ab''" "hexByte 0x4B = asc ''4b''"
  by (simp_all add: hexByte_def hexDigit_def asc_def code_def)

lemma uuidText_AB: "uuidText (\<lambda>i. 0xAB) = asc ''abababab-abab-4bab-abab-abababababab''"
  by (simp add: uuidText_def uuidByte_AB hexByte_AB) (simp add: asc_def code_def)

lemma demoWorld_uuid: "randomUUID demoWorld = asc ''abababab-abab-4bab-abab-abababababab''"
  by (simp add: randomUUID_def demoWorld_def uuidText_AB)

lemma noWindowWorld_uuid: "randomUUID noWindowWorld = asc ''abababab-abab-4bab-abab-abababababab''"
  by (simp add: randomUUID_def noWindowWorld_def demoWorld_def uuidText_AB)

subsection \<open>The contract of a hidden run\<close>



lemma two_runs: "nat (synthesisCount (JsNumber (Finite 2))) = 2"
  by (simp add: synthesisCount_def)

lemma demoWorld_valid: "validOrder demoWorld 2"
  by (auto simp: validOrder_def demoWorld_def)


subsection \<open>Events of a job\<close>

lemma isDone_progress:
  "filter isDone (map (\<lambda>c. EnsembleProgress j ws g c t) cs) = []"
  by (induction cs) (simp_all add: isDone_def)

lemma synthesis_events:
  assumes "dirExists w"
  shows "\<exists>D. snd (ensembleSynthesis sz w ws path g n) =
           map (\<lambda>c. EnsembleProgress (newJobId w) ws g c (nat (synthesisCount n)))
             (filter (windowAt w) [0..<Suc (length (completionOrder w))]) @ D \<and>
         (D = [] \<or> D = [EnsembleDone (newJobId w) ws g (randomUUID w) (nat (synthesisCount n))])"
  using assms
  by (auto simp: ensembleSynthesis_def job_fields sendToWindow_def split: option.splits
      simp del: upt_Suc)

lemma synthesis_failure:
  assumes "dirExists w" and "i < nat (synthesisCount n)" and "homeThrows w i \<noteq> None"
  shows "\<exists>err. ensembleSynthesis sz w ws path g n =
           (Some (Inl err),
            map (\<lambda>c. EnsembleProgress (newJobId w) ws g c (nat (synthesisCount n)))
              (filter (windowAt w) [0..<Suc (length (completionOrder w))]))"
proof -
  have "List.find (\<lambda>i. homeThrows w i \<noteq> None) [0..<nat (synthesisCount n)] \<noteq> None"
    using assms(2,3) by (auto simp: find_None_iff)
  then obtain k where k: "List.find (\<lambda>i. homeThrows w i \<noteq> None) [0..<nat (synthesisCount n)] = Some k"
    by blast
  show ?thesis
    unfolding ensembleSynthesis_def k using assms(1) by (simp add: job_fields del: upt_Suc)
qed

text \<open>
  Claim C8, amended. For every synthesis job the \<open>ensemble:progress\<close> messages that reach
  the window carry the job's id and total, and the values of \<open>completed\<close> they carry
  increase and stay within the total (the k-th message of the job carries k - 1; a message
  is skipped when there is no window to receive it). A job whose runs all start returns
  \<open>ok\<close> with the session id that \<open>crypto.randomUUID\<close> produced, a text of 36 characters
  with the version digit 4, so not empty. Such a job sends exactly one \<open>ensemble:done\<close>,
  with that session id, when the window is there at the end of the job, and none when it
  is not; with a window present at every message its messages are the progress values 0
  to n followed by the \<open>ensemble:done\<close>. In every case at most one \<open>ensemble:done\<close> is
  sent, it is the last message, and none is sent by a job that fails.
\<close>

theorem ensemble_events:
  assumes d: "dirExists w" and v: "validOrder w (nat (synthesisCount n))"
  shows
    "1 \<le> nat (synthesisCount n) \<and> nat (synthesisCount n) \<le> 12 \<and>
     progressValues (snd (ensembleSynthesis sz w ws path g n)) =
       filter (windowAt w) [0..<Suc (length (completionOrder w))] \<and>
     sorted (progressValues (snd (ensembleSynthesis sz w ws path g n))) \<and>
     distinct (progressValues (snd (ensembleSynthesis sz w ws path g n))) \<and>
     list_all (\<lambda>c. c \<le> nat (synthesisCount n))
       (progressValues (snd (ensembleSynthesis sz w ws path g n))) \<and>
     (\<forall>ev \<in> set (snd (ensembleSynthesis sz w ws path g n)).
        ev = EnsembleDone (newJobId w) ws g (randomUUID w) (nat (synthesisCount n)) \<or>
        (\<exists>c. ev = EnsembleProgress (newJobId w) ws g c (nat (synthesisCount n)))) \<and>
     length (filter isDone (snd (ensembleSynthesis sz w ws path g n))) \<le> 1 \<and>
     filter isDone (butlast (snd (ensembleSynthesis sz w ws path g n))) = [] \<and>
     ((\<forall>i<nat (synthesisCount n). homeThrows w i = None) \<longrightarrow>
        ensembleSynthesis sz w ws path g n =
          (Some (Inr \<lparr>ok = True, count = nat (synthesisCount n), pl_sessionId = randomUUID w,
                      pl_jobId = newJobId w\<rparr>),
           map (\<lambda>c. EnsembleProgress (newJobId w) ws g c (nat (synthesisCount n)))
             (filter (windowAt w) [0..<Suc (nat (synthesisCount n))])
           @ (if windowAt w (Suc (nat (synthesisCount n)))
              then [EnsembleDone (newJobId w) ws g (randomUUID w) (nat (synthesisCount n))]
              else []))) \<and>
     ((\<forall>i<nat (synthesisCount n). homeThrows w i = None) \<and> (\<forall>k. windowAt w k) \<longrightarrow>
        snd (ensembleSynthesis sz w ws path g n) =
          map (\<lambda>c. EnsembleProgress (newJobId w) ws g c (nat (synthesisCount n)))
            [0..<Suc (nat (synthesisCount n))]
          @ [EnsembleDone (newJobId w) ws g (randomUUID w) (nat (synthesisCount n))]) \<and>
     ((\<forall>i<nat (synthesisCount n). homeThrows w i = None) \<and> windowAt w (Suc (nat (synthesisCount n))) \<longrightarrow>
        filter isDone (snd (ensembleSynthesis sz w ws path g n)) =
          [EnsembleDone (newJobId w) ws g (randomUUID w) (nat (synthesisCount n))] \<and>
        last (snd (ensembleSynthesis sz w ws path g n)) =
          EnsembleDone (newJobId w) ws g (randomUUID w) (nat (synthesisCount n))) \<and>
     ((\<forall>i<nat (synthesisCount n). homeThrows w i = None) \<and>
      \<not> windowAt w (Suc (nat (synthesisCount n))) \<longrightarrow>
        filter isDone (snd (ensembleSynthesis sz w ws path g n)) = []) \<and>
     length (randomUUID w) = 36 \<and> randomUUID w \<noteq> [] \<and> randomUUID w ! 14 = 0x34 \<and>
     ((\<exists>i<nat (synthesisCount n). homeThrows w i \<noteq> None) \<longrightarrow>
        (\<exists>err. fst (ensembleSynthesis sz w ws path g n) = Some (Inl err)) \<and>
        filter isDone (snd (ensembleSynthesis sz w ws path g n)) = [])"
proof -
  let ?n = "nat (synthesisCount n)"
  let ?evs = "snd (ensembleSynthesis sz w ws path g n)"
  let ?P = "map (\<lambda>c. EnsembleProgress (newJobId w) ws g c ?n)
             (filter (windowAt w) [0..<Suc (length (completionOrder w))])"
  let ?done = "EnsembleDone (newJobId w) ws g (randomUUID w) ?n"
  from synthesis_events [OF d] obtain D where
    e: "?evs = ?P @ D" and D: "D = [] \<or> D = [?done]" by blast
  have rng: "1 \<le> ?n \<and> ?n \<le> 12"
    using synthesisCount_range [of n] by auto
  have pD: "progressValues D = []" using D by (auto simp: progressValues_def)
  have pv: "progressValues ?evs = filter (windowAt w) [0..<Suc (length (completionOrder w))]"
    unfolding e by (simp add: progressValues_append progressValues_map pD del: upt_Suc)
  have srt: "sorted (progressValues ?evs)" "distinct (progressValues ?evs)"
    unfolding pv by (simp_all add: sorted_wrt_filter del: upt_Suc)
  have bnd: "list_all (\<lambda>c. c \<le> ?n) (progressValues ?evs)"
    unfolding pv using validOrder_length(1) [OF v] by (auto simp: list_all_iff)
  have shape: "\<forall>ev \<in> set ?evs. ev = ?done \<or> (\<exists>c. ev = EnsembleProgress (newJobId w) ws g c ?n)"
    unfolding e using D by auto
  have one: "length (filter isDone ?evs) \<le> 1"
    unfolding e using D by (auto simp: isDone_progress)
  have "set (butlast ?P) \<subseteq> set ?P" by (auto dest: in_set_butlastD)
  then have bp: "filter isDone (butlast ?P) = []"
    by (auto simp: filter_empty_conv isDone_def)
  have last: "filter isDone (butlast ?evs) = []"
    unfolding e using D bp by (auto simp: isDone_progress butlast_append)
  have ok: "ensembleSynthesis sz w ws path g n =
          (Some (Inr \<lparr>ok = True, count = ?n, pl_sessionId = randomUUID w, pl_jobId = newJobId w\<rparr>),
           map (\<lambda>c. EnsembleProgress (newJobId w) ws g c ?n) (filter (windowAt w) [0..<Suc ?n])
           @ (if windowAt w (Suc ?n) then [?done] else []))"
    if "\<forall>i<?n. homeThrows w i = None"
    using synthesis_success [OF d v that] .
  have all: "?evs = map (\<lambda>c. EnsembleProgress (newJobId w) ws g c ?n) [0..<Suc ?n] @ [?done]"
    if "(\<forall>i<?n. homeThrows w i = None) \<and> (\<forall>k. windowAt w k)"
    using synthesis_success [OF d v] that by (simp del: upt_Suc)
  have bad: "(\<exists>err. fst (ensembleSynthesis sz w ws path g n) = Some (Inl err)) \<and>
        filter isDone ?evs = []"
    if "\<exists>i<?n. homeThrows w i \<noteq> None"
  proof -
    from that obtain i where "i < ?n" "homeThrows w i \<noteq> None" by blast
    from synthesis_failure [OF d this] obtain err where
      "ensembleSynthesis sz w ws path g n = (Some (Inl err), ?P)" by blast
    then show ?thesis by (simp add: isDone_progress del: upt_Suc)
  qed
  have yes: "filter isDone ?evs = [?done] \<and> List.last ?evs = ?done"
    if "(\<forall>i<?n. homeThrows w i = None) \<and> windowAt w (Suc ?n)"
    using synthesis_success [OF d v, of sz ws path g] that
    by (simp add: isDone_progress isDone_def del: upt_Suc)
  have no: "filter isDone ?evs = []"
    if "(\<forall>i<?n. homeThrows w i = None) \<and> \<not> windowAt w (Suc ?n)"
    using synthesis_success [OF d v, of sz ws path g] that
    by (simp add: isDone_progress del: upt_Suc)
  have id: "length (randomUUID w) = 36 \<and> randomUUID w \<noteq> [] \<and> randomUUID w ! 14 = 0x34"
    using uuid_length [of "randomBytes w"] uuid_version [of "randomBytes w"]
    by (auto simp: randomUUID_def)
  show ?thesis
    using rng pv srt bnd shape one last ok all yes no id bad by blast
qed

theorem ensemble_events_witness:
  "snd (ensembleSynthesis (\<lambda>s. s) demoWorld (asc ''ws'') (asc ''/w'') (asc ''the goal'')
          (JsNumber (Finite 2))) =
     [EnsembleProgress (asc ''synth_1_abc'') (asc ''ws'') (asc ''the goal'') 0 2,
      EnsembleProgress (asc ''synth_1_abc'') (asc ''ws'') (asc ''the goal'') 1 2,
      EnsembleProgress (asc ''synth_1_abc'') (asc ''ws'') (asc ''the goal'') 2 2,
      EnsembleDone (asc ''synth_1_abc'') (asc ''ws'') (asc ''the goal'')
        (asc ''abababab-abab-4bab-abab-abababababab'') 2] \<and>
   progressValues (snd (ensembleSynthesis (\<lambda>s. s) demoWorld (asc ''ws'') (asc ''/w'')
     (asc ''the goal'') (JsNumber (Finite 2)))) = [0, 1, 2]"
proof -
  have d: "dirExists demoWorld" by (simp add: demoWorld_def)
  have v: "validOrder demoWorld (nat (synthesisCount (JsNumber (Finite 2))))"
    using demoWorld_valid by (simp add: two_runs)
  note t = ensemble_events [OF d v, of "\<lambda>s. s" "asc ''ws''" "asc ''/w''" "asc ''the goal''"]
  have w: "\<forall>i<2. homeThrows demoWorld i = None" "\<forall>k. windowAt demoWorld k"
    "randomUUID demoWorld = asc ''abababab-abab-4bab-abab-abababababab''"
    "newJobId demoWorld = asc ''synth_1_abc''" "length (completionOrder demoWorld) = 2"
    by (simp_all add: demoWorld_uuid) (simp_all add: demoWorld_def)
  have u: "[0..<Suc 2] = [0, 1, 2]" by (simp add: upt_rec)
  from t have "snd (ensembleSynthesis (\<lambda>s. s) demoWorld (asc ''ws'') (asc ''/w'') (asc ''the goal'')
          (JsNumber (Finite 2))) =
          map (\<lambda>c. EnsembleProgress (newJobId demoWorld) (asc ''ws'') (asc ''the goal'') c 2)
            [0..<Suc 2]
          @ [EnsembleDone (newJobId demoWorld) (asc ''ws'') (asc ''the goal'')
               (randomUUID demoWorld) 2]"
    using w(1,2) by (simp add: two_runs del: upt_Suc)
  then have a: "snd (ensembleSynthesis (\<lambda>s. s) demoWorld (asc ''ws'') (asc ''/w'') (asc ''the goal'')
          (JsNumber (Finite 2))) =
     [EnsembleProgress (asc ''synth_1_abc'') (asc ''ws'') (asc ''the goal'') 0 2,
      EnsembleProgress (asc ''synth_1_abc'') (asc ''ws'') (asc ''the goal'') 1 2,
      EnsembleProgress (asc ''synth_1_abc'') (asc ''ws'') (asc ''the goal'') 2 2,
      EnsembleDone (asc ''synth_1_abc'') (asc ''ws'') (asc ''the goal'')
        (asc ''abababab-abab-4bab-abab-abababababab'') 2]"
    unfolding u by (simp add: w(3,4))
  from t have "progressValues (snd (ensembleSynthesis (\<lambda>s. s) demoWorld (asc ''ws'') (asc ''/w'')
     (asc ''the goal'') (JsNumber (Finite 2)))) = filter (windowAt demoWorld) [0..<Suc 2]"
    by (simp add: w(5) del: upt_Suc)
  then have b: "progressValues (snd (ensembleSynthesis (\<lambda>s. s) demoWorld (asc ''ws'') (asc ''/w'')
     (asc ''the goal'') (JsNumber (Finite 2)))) = [0, 1, 2]"
    unfolding u by (simp add: w(2))
  show ?thesis using a b by simp
qed

text \<open>
  The claim as stated has every successful job send progress values from 0 to n and one
  \<open>ensemble:done\<close>. Here the window has been closed before the job starts: both runs and
  the final run take place, the handler returns \<open>ok\<close>, and no message is sent.
\<close>

lemma noWindowWorld_valid: "validOrder noWindowWorld 2"
  by (auto simp: validOrder_def noWindowWorld_def demoWorld_def)

theorem ensemble_events_counterexample:
  "ensembleSynthesis (\<lambda>s. s) noWindowWorld (asc ''ws'') (asc ''/w'') (asc ''the goal'')
     (JsNumber (Finite 2)) =
     (Some (Inr \<lparr>ok = True, count = 2,
                 pl_sessionId = asc ''abababab-abab-4bab-abab-abababababab'',
                 pl_jobId = asc ''synth_1_abc''\<rparr>), [])"
proof -
  have d: "dirExists noWindowWorld" by (simp add: noWindowWorld_def demoWorld_def)
  have v: "validOrder noWindowWorld (nat (synthesisCount (JsNumber (Finite 2))))"
    using noWindowWorld_valid by (simp add: two_runs)
  have h: "\<forall>i<nat (synthesisCount (JsNumber (Finite 2))). homeThrows noWindowWorld i = None"
    by (simp add: noWindowWorld_def demoWorld_def)
  have f: "windowAt noWindowWorld = (\<lambda>k. False)" "newJobId noWindowWorld = asc ''synth_1_abc''"
    by (simp_all add: noWindowWorld_def demoWorld_def)
  show ?thesis
    using synthesis_success [OF d v h, of "\<lambda>s. s" "asc ''ws''" "asc ''/w''" "asc ''the goal''"]
    by (simp add: two_runs f noWindowWorld_uuid del: upt_Suc)
qed

end
